theory Spec2Isabelle
  imports Main "HOL-Library.Multiset"
begin

section \<open>Python values of the supplier feed\<close>

text \<open>
  A Python \<^verbatim>\<open>str\<close> is a sequence of Unicode code points; it is modelled as a list of
  their numbers, so that the Cyrillic text of the supplier feed is one element per
  character, as in Python. \<open>ascii\<close> writes an ASCII literal.
\<close>

type_synonym pystr = "nat list"

definition ascii :: "string \<Rightarrow> pystr" where
  "ascii s = map of_char s"

text \<open>
  The cells of a supplier row (\<^verbatim>\<open>pandas.read_excel(...).to_dict(orient="records")\<close>) are
  text or whole numbers; \<^verbatim>\<open>watch.get(key)\<close> of a missing column is \<^verbatim>\<open>None\<close>. Floating-point
  cells are outside this model.
\<close>

datatype pyval = PStr pystr | PInt int | PNone

datatype error = ValueError | TypeError | AttributeError | IndexError | TransportError

subsection \<open>\<^verbatim>\<open>str(x)\<close>\<close>

fun digits_of_nat :: "nat \<Rightarrow> pystr" where
  "digits_of_nat n = (if n < 10 then [48 + n] else digits_of_nat (n div 10) @ [48 + n mod 10])"

declare digits_of_nat.simps [simp del]

definition str_of_int :: "int \<Rightarrow> pystr" where
  "str_of_int i = (if i < 0 then 45 # digits_of_nat (nat (- i)) else digits_of_nat (nat i))"

fun py_str :: "pyval \<Rightarrow> pystr" where
  "py_str (PStr s) = s"
| "py_str (PInt i) = str_of_int i"
| "py_str PNone = ascii ''None''"

subsection \<open>\<^verbatim>\<open>int(x)\<close>\<close>

text \<open>
  \<^verbatim>\<open>int\<close> of a string (CPython, base 10) first maps the string to ASCII: a code point below
  127 stays, a Unicode space becomes a blank, a Unicode decimal digit becomes the ASCII
  digit of its value, and anything else makes the conversion fail. The ASCII text is then
  read as: white space, an optional sign, a group of digits in which single underscores
  may separate digits, white space, end of text. A text with more digits than the
  interpreter's limit (\<^verbatim>\<open>sys.get_int_max_str_digits()\<close>, 4300 unless changed) is refused
  with \<^verbatim>\<open>ValueError\<close>; the digits are counted without the underscores and with leading
  zeros.
\<close>

definition int_max_str_digits :: nat where
  "int_max_str_digits = 4300"

definition unicode_space :: "nat \<Rightarrow> bool" where
  "unicode_space c \<longleftrightarrow>
     c = 0x85 \<or> c = 0xA0 \<or> c = 0x1680 \<or> (0x2000 \<le> c \<and> c \<le> 0x200A) \<or>
     c = 0x2028 \<or> c = 0x2029 \<or> c = 0x202F \<or> c = 0x205F \<or> c = 0x3000"

text \<open>The first code point of every run of ten decimal digits (Unicode 14, as in CPython 3.11).\<close>

definition decimal_runs :: "nat list" where
  "decimal_runs =
     [0x30, 0x660, 0x6F0, 0x7C0, 0x966, 0x9E6, 0xA66, 0xAE6, 0xB66, 0xBE6, 0xC66, 0xCE6,
      0xD66, 0xDE6, 0xE50, 0xED0, 0xF20, 0x1040, 0x1090, 0x17E0, 0x1810, 0x1946, 0x19D0,
      0x1A80, 0x1A90, 0x1B50, 0x1BB0, 0x1C40, 0x1C50, 0xA620, 0xA8D0, 0xA900, 0xA9D0,
      0xA9F0, 0xAA50, 0xABF0, 0xFF10, 0x104A0, 0x10D30, 0x11066, 0x110F0, 0x11136,
      0x111D0, 0x112F0, 0x11450, 0x114D0, 0x11650, 0x116C0, 0x11730, 0x118E0, 0x11950,
      0x11C50, 0x11D50, 0x11DA0, 0x16A60, 0x16AC0, 0x16B50, 0x1D7CE, 0x1D7D8, 0x1D7E2,
      0x1D7EC, 0x1D7F6, 0x1E140, 0x1E2F0, 0x1E950, 0x1FBF0]"

definition unicode_decimal :: "nat \<Rightarrow> nat option" where
  "unicode_decimal c =
     (case find (\<lambda>s. s \<le> c \<and> c < s + 10) decimal_runs of
        None \<Rightarrow> None
      | Some s \<Rightarrow> Some (c - s))"

definition to_ascii_char :: "nat \<Rightarrow> nat option" where
  "to_ascii_char c =
     (if c < 127 then Some c
      else if unicode_space c then Some 32
      else map_option (\<lambda>d. 48 + d) (unicode_decimal c))"

fun to_ascii :: "pystr \<Rightarrow> pystr option" where
  "to_ascii [] = Some []"
| "to_ascii (c # cs) =
     (case to_ascii_char c of
        None \<Rightarrow> None
      | Some a \<Rightarrow> (case to_ascii cs of None \<Rightarrow> None | Some as \<Rightarrow> Some (a # as)))"

definition ascii_space :: "nat \<Rightarrow> bool" where
  "ascii_space c \<longleftrightarrow> c = 32 \<or> (9 \<le> c \<and> c \<le> 13)"

definition is_digit :: "nat \<Rightarrow> bool" where
  "is_digit c \<longleftrightarrow> 48 \<le> c \<and> c \<le> 57"

definition digit_or_underscore :: "nat \<Rightarrow> bool" where
  "digit_or_underscore c \<longleftrightarrow> is_digit c \<or> c = 95"

fun double_underscore :: "pystr \<Rightarrow> bool" where
  "double_underscore (a # b # cs) = ((a = 95 \<and> b = 95) \<or> double_underscore (b # cs))"
| "double_underscore _ = False"

definition decimal_value :: "pystr \<Rightarrow> nat" where
  "decimal_value ds = foldl (\<lambda>v c. 10 * v + (c - 48)) 0 ds"

definition drop_sign :: "pystr \<Rightarrow> int \<times> pystr" where
  "drop_sign r =
     (case r of
        [] \<Rightarrow> (1, [])
      | c # cs \<Rightarrow> if c = 43 then (1, cs) else if c = 45 then (- 1, cs) else (1, r))"

definition long_from_string :: "pystr \<Rightarrow> int option" where
  "long_from_string a =
     (let (sign, r) = drop_sign (dropWhile ascii_space a);
          grp = takeWhile digit_or_underscore r;
          rest = dropWhile digit_or_underscore r
      in if grp = [] \<or> hd grp = 95 \<or> last grp = 95 \<or> double_underscore grp then None
         else if int_max_str_digits < length (filter is_digit grp) then None
         else if dropWhile ascii_space rest \<noteq> [] then None
         else Some (sign * int (decimal_value (filter is_digit grp))))"

text \<open>
  The digits of a decimal integer literal as the language reference writes them: a digit,
  then digits each of which may have one underscore before it.
\<close>

fun digit_group :: "pystr \<Rightarrow> bool" where
  "digit_group [] = False"
| "digit_group [d] = is_digit d"
| "digit_group (d # u # cs) =
     (is_digit d \<and> (if u = 95 then digit_group cs else digit_group (u # cs)))"

definition int_of_str :: "pystr \<Rightarrow> int option" where
  "int_of_str s = (case to_ascii s of None \<Rightarrow> None | Some a \<Rightarrow> long_from_string a)"

fun py_int :: "pyval \<Rightarrow> error + int" where
  "py_int (PStr s) = (case int_of_str s of None \<Rightarrow> Inl ValueError | Some n \<Rightarrow> Inr n)"
| "py_int (PInt i) = Inr i"
| "py_int PNone = Inl TypeError"

section \<open>The reconciliation of the feed with the offer ids\<close>

text \<open>
  A supplier row is a dictionary read through three keys, Russian words written here in
  Latin letters: \<open>Kod\<close> (code), \<open>Kolichestvo\<close> (quantity) and \<open>Tsena\<close> (price). A field
  holds what \<^verbatim>\<open>watch.get(key)\<close> returns.
\<close>

record watch =
  Kod :: pyval
  Kolichestvo :: pyval
  Tsena :: pyval

record stock_update =
  stock_offer_id :: pystr
  stock :: int

record price_update =
  auto_action_enabled :: pystr
  currency_code :: pystr
  price_offer_id :: pystr
  old_price :: pystr
  price :: pystr

text \<open>The code of a row as the program compares it: \<^verbatim>\<open>str(watch.get(key))\<close> of the code cell.\<close>

abbreviation code :: "watch \<Rightarrow> pystr" where
  "code w \<equiv> py_str (Kod w)"

text \<open>
  The quantity rule of \<^verbatim>\<open>create_stocks\<close> (the body of its \<^verbatim>\<open>if\<close>, source lines 221 to 227):
  \<^verbatim>\<open>count = str(q)\<close>; \<^verbatim>\<open>">10"\<close> gives 100, \<^verbatim>\<open>"1"\<close> gives 0, anything else \<^verbatim>\<open>int(q)\<close>
  of the cell itself.
\<close>

definition parse_quantity :: "pyval \<Rightarrow> error + int" where
  "parse_quantity q =
     (let count = py_str q
      in if count = ascii ''>10'' then Inr 100
         else if count = ascii ''1'' then Inr 0
         else py_int q)"

text \<open>
  \<^verbatim>\<open>create_stocks\<close> works on the caller's list itself: \<^verbatim>\<open>offer_ids.remove(...)\<close> deletes the
  first occurrence in place. The model returns the list as the call leaves it, next to the
  result or the exception.
\<close>

fun stocks_scan ::
  "watch list \<Rightarrow> stock_update list \<Rightarrow> pystr list \<Rightarrow> (error + stock_update list) \<times> pystr list"
where
  "stocks_scan [] stocks offer_ids = (Inr stocks, offer_ids)"
| "stocks_scan (w # ws) stocks offer_ids =
     (if py_str (Kod w) \<in> set offer_ids then
        (case parse_quantity (Kolichestvo w) of
           Inl e \<Rightarrow> (Inl e, offer_ids)
         | Inr st \<Rightarrow>
             stocks_scan ws
               (stocks @ [\<lparr>stock_offer_id = py_str (Kod w), stock = st\<rparr>])
               (remove1 (py_str (Kod w)) offer_ids))
      else stocks_scan ws stocks offer_ids)"

definition create_stocks ::
  "watch list \<Rightarrow> pystr list \<Rightarrow> (error + stock_update list) \<times> pystr list"
where
  "create_stocks watch_remnants offer_ids =
     (case stocks_scan watch_remnants [] offer_ids of
        (Inl e, ids) \<Rightarrow> (Inl e, ids)
      | (Inr stocks, ids) \<Rightarrow>
          (Inr (stocks @ map (\<lambda>i. \<lparr>stock_offer_id = i, stock = 0\<rparr>) ids), ids))"

subsection \<open>Prices\<close>

fun split_on :: "nat \<Rightarrow> pystr \<Rightarrow> pystr list" where
  "split_on sep [] = [[]]"
| "split_on sep (c # cs) =
     (if c = sep then [] # split_on sep cs
      else (case split_on sep cs of [] \<Rightarrow> [[c]] | p # ps \<Rightarrow> (c # p) # ps))"

definition sub_non_digits :: "pystr \<Rightarrow> pystr" where
  "sub_non_digits s = filter is_digit s"

fun price_conversion :: "pyval \<Rightarrow> error + pystr" where
  "price_conversion (PStr s) =
     (case split_on 46 s of [] \<Rightarrow> Inl IndexError | p # _ \<Rightarrow> Inr (sub_non_digits p))"
| "price_conversion _ = Inl AttributeError"

text \<open>The dictionary \<^verbatim>\<open>create_prices\<close> builds for a row, given the converted price.\<close>

definition price_entry :: "watch \<Rightarrow> pystr \<Rightarrow> price_update" where
  "price_entry w p =
     \<lparr>auto_action_enabled = ascii ''UNKNOWN'', currency_code = ascii ''RUB'',
      price_offer_id = py_str (Kod w), old_price = ascii ''0'', price = p\<rparr>"

fun prices_scan :: "watch list \<Rightarrow> price_update list \<Rightarrow> pystr list \<Rightarrow> error + price_update list"
where
  "prices_scan [] prices offer_ids = Inr prices"
| "prices_scan (w # ws) prices offer_ids =
     (if py_str (Kod w) \<in> set offer_ids then
        (case price_conversion (Tsena w) of
           Inl e \<Rightarrow> Inl e
         | Inr p \<Rightarrow> prices_scan ws (prices @ [price_entry w p]) offer_ids)
      else prices_scan ws prices offer_ids)"

definition create_prices :: "watch list \<Rightarrow> pystr list \<Rightarrow> error + price_update list" where
  "create_prices watch_remnants offer_ids = prices_scan watch_remnants [] offer_ids"

text \<open>
  \<^verbatim>\<open>main\<close> calls \<^verbatim>\<open>create_stocks\<close> and then \<^verbatim>\<open>create_prices\<close> with the same list object
  (source lines 372 and 376): the second call reads the list as the first call left it.
\<close>

definition stocks_then_prices ::
  "watch list \<Rightarrow> pystr list \<Rightarrow> error + stock_update list \<times> price_update list"
where
  "stocks_then_prices watch_remnants offer_ids =
     (case create_stocks watch_remnants offer_ids of
        (Inl e, ids) \<Rightarrow> Inl e
      | (Inr stocks, ids) \<Rightarrow>
          (case create_prices watch_remnants ids of
             Inl e \<Rightarrow> Inl e
           | Inr prices \<Rightarrow> Inr (stocks, prices)))"

text \<open>A row of the feed whose three cells are ASCII text, for the examples.\<close>

definition row :: "string \<Rightarrow> string \<Rightarrow> string \<Rightarrow> watch" where
  "row c q p = \<lparr>Kod = PStr (ascii c), Kolichestvo = PStr (ascii q), Tsena = PStr (ascii p)\<rparr>"

section \<open>Batches\<close>

text \<open>
  \<^verbatim>\<open>range(start, stop, step)\<close>: a zero step raises \<^verbatim>\<open>ValueError\<close>; otherwise the range has
  the length CPython computes for it and holds \<open>start + k * step\<close>.
\<close>

definition range_length :: "int \<Rightarrow> int \<Rightarrow> int \<Rightarrow> nat" where
  "range_length start stop step =
     (if 0 < step \<and> start < stop then nat ((stop - start - 1) div step + 1)
      else if step < 0 \<and> stop < start then nat ((start - stop - 1) div (- step) + 1)
      else 0)"

definition py_range :: "int \<Rightarrow> int \<Rightarrow> int \<Rightarrow> error + int list" where
  "py_range start stop step =
     (if step = 0 then Inl ValueError
      else Inr (map (\<lambda>k. start + int k * step) [0..<range_length start stop step]))"

text \<open>\<^verbatim>\<open>xs[i:j]\<close>: a negative bound counts from the end, and both bounds are clipped to the list.\<close>

definition slice_index :: "int \<Rightarrow> int \<Rightarrow> nat" where
  "slice_index len k = nat (if k < 0 then max 0 (k + len) else min k len)"

definition py_slice :: "'a list \<Rightarrow> int \<Rightarrow> int \<Rightarrow> 'a list" where
  "py_slice xs i j =
     (let a = slice_index (int (length xs)) i; b = slice_index (int (length xs)) j
      in take (b - a) (drop a xs))"

text \<open>
  \<^verbatim>\<open>divide\<close> is a generator; every caller consumes it whole with \<^verbatim>\<open>list(divide(...))\<close>.
  The model is the list of all chunks it yields, or the exception its first step raises.
\<close>

definition divide :: "'a list \<Rightarrow> int \<Rightarrow> error + 'a list list" where
  "divide lst n =
     (case py_range 0 (int (length lst)) n of
        Inl e \<Rightarrow> Inl e
      | Inr idx \<Rightarrow> Inr (map (\<lambda>i. py_slice lst i (i + n)) idx))"

text \<open>The number of chunks of a list of \<open>len\<close> elements cut every \<open>m\<close> elements.\<close>

definition chunk_count :: "nat \<Rightarrow> nat \<Rightarrow> nat" where
  "chunk_count len m = (if len = 0 then 0 else (len - 1) div m + 1)"

section \<open>The offer ids of the shop\<close>

record product =
  product_id :: int
  offer_id :: pystr

record product_page =
  items :: "product list"
  total :: int
  last_id :: pystr

text \<open>
  \<^verbatim>\<open>get_product_list(last_id, client_id, seller_token)\<close> is a request to the marketplace. With
  the credentials fixed it is a step of the remote service: from the service's state and the
  cursor to a page (or a transport error) and the next state.
\<close>

type_synonym 's listing = "'s \<Rightarrow> pystr \<Rightarrow> (error + product_page) \<times> 's"

text \<open>
  The \<^verbatim>\<open>while True\<close> loop of \<^verbatim>\<open>get_offer_ids\<close>. It has no bound, so it is a partial function:
  \<open>None\<close> is a run that never leaves the loop.
\<close>

partial_function (option) offer_loop ::
  "'s listing \<Rightarrow> pystr \<Rightarrow> product list \<Rightarrow> 's \<Rightarrow> ((error + product list) \<times> 's) option"
where
  "offer_loop get_product_list cursor product_list s =
     (case get_product_list s cursor of
        (Inl e, s') \<Rightarrow> Some (Inl e, s')
      | (Inr some_prod, s') \<Rightarrow>
          (if total some_prod = int (length (product_list @ items some_prod))
           then Some (Inr (product_list @ items some_prod), s')
           else offer_loop get_product_list (last_id some_prod)
                  (product_list @ items some_prod) s'))"

definition get_offer_ids :: "'s listing \<Rightarrow> 's \<Rightarrow> ((error + pystr list) \<times> 's) option" where
  "get_offer_ids get_product_list s =
     (case offer_loop get_product_list [] [] s of
        None \<Rightarrow> None
      | Some (Inl e, s') \<Rightarrow> Some (Inl e, s')
      | Some (Inr product_list, s') \<Rightarrow> Some (Inr (map offer_id product_list), s'))"

text \<open>
  A listing service for tests: it serves a fixed list of pages in order, whatever the
  cursor, and records every cursor it was asked with. Its state is the pages not yet
  served and the cursors seen. Asked beyond its last page it fails.
\<close>

fun paged_listing :: "(product_page list \<times> pystr list) listing" where
  "paged_listing ([], seen) cursor = (Inl TransportError, ([], seen @ [cursor]))"
| "paged_listing (p # ps, seen) cursor = (Inr p, (ps, seen @ [cursor]))"

text \<open>
  \<open>reaches_total_at_last n ps\<close>: with \<open>n\<close> items already collected, the running item count
  equals the reported total at the last page of \<open>ps\<close> and at no page before it.
\<close>

fun reaches_total_at_last :: "nat \<Rightarrow> product_page list \<Rightarrow> bool" where
  "reaches_total_at_last n [] = False"
| "reaches_total_at_last n [p] = (total p = int (n + length (items p)))"
| "reaches_total_at_last n (p # q # ps) =
     (total p \<noteq> int (n + length (items p)) \<and>
      reaches_total_at_last (n + length (items p)) (q # ps))"

text \<open>
  \<open>never_total n ps\<close>: with \<open>n\<close> items already collected, the running item count equals the
  reported total at no page of \<open>ps\<close>.
\<close>

fun never_total :: "nat \<Rightarrow> product_page list \<Rightarrow> bool" where
  "never_total n [] = True"
| "never_total n (p # ps) =
     (total p \<noteq> int (n + length (items p)) \<and> never_total (n + length (items p)) ps)"

text \<open>
  \<open>serves glp s cursor ps s'\<close>: asked first with \<open>cursor\<close> in state \<open>s\<close> and then with the
  \<^verbatim>\<open>last_id\<close> of each page it has just returned, the service answers with the pages \<open>ps\<close>,
  one per call and none of them a failure, and is then in state \<open>s'\<close>.
  \<open>next_cursor cursor ps\<close> is the cursor of the call after these.
\<close>

fun serves :: "'s listing \<Rightarrow> 's \<Rightarrow> pystr \<Rightarrow> product_page list \<Rightarrow> 's \<Rightarrow> bool" where
  "serves glp s cursor [] s' = (s' = s)"
| "serves glp s cursor (p # ps) s' =
     (case glp s cursor of
        (Inl e, s1) \<Rightarrow> False
      | (Inr q, s1) \<Rightarrow> q = p \<and> serves glp s1 (last_id p) ps s')"

definition next_cursor :: "pystr \<Rightarrow> product_page list \<Rightarrow> pystr" where
  "next_cursor cursor ps = (if ps = [] then cursor else last_id (last ps))"

text \<open>A listing service that never gets there: one product on every page, total 0.\<close>

definition stuck_listing :: "unit listing" where
  "stuck_listing s cursor =
     (Inr \<lparr>items = [\<lparr>product_id = 1, offer_id = ascii ''A''\<rparr>], total = 0, last_id = cursor\<rparr>, s)"

text \<open>
  A page of \<open>n\<close> products numbered from \<open>start\<close>, for the examples: the offer id of product
  \<open>k\<close> is the one-character string with code point \<open>k\<close>.
\<close>

definition numbered_page :: "nat \<Rightarrow> nat \<Rightarrow> int \<Rightarrow> product_page" where
  "numbered_page start n tot =
     \<lparr>items = map (\<lambda>k. \<lparr>product_id = int k, offer_id = [k]\<rparr>) [start..<start + n],
      total = tot, last_id = [start + n]\<rparr>"

section \<open>Properties of the parsers\<close>

lemmas py_eval = ascii_def int_of_str_def to_ascii_char_def long_from_string_def
  int_max_str_digits_def drop_sign_def ascii_space_def digit_or_underscore_def is_digit_def decimal_value_def
  sub_non_digits_def parse_quantity_def

lemma split_on_first: "\<exists>ps. split_on sep s = takeWhile (\<lambda>c. c \<noteq> sep) s # ps"
  by (induction s) (auto split: list.splits)

lemma price_conversion_str:
  "price_conversion (PStr s) = Inr (filter is_digit (takeWhile (\<lambda>c. c \<noteq> 46) s))"
proof -
  obtain ps where "split_on 46 s = takeWhile (\<lambda>c. c \<noteq> 46) s # ps"
    using split_on_first by blast
  then show ?thesis by (simp add: sub_non_digits_def)
qed

text \<open>
  Claim C7. For every input string, \<^verbatim>\<open>price_conversion\<close> returns the part of the input before
  the first full stop (code point 46) with every character that is not one of the ASCII
  digits (code points 48 to 57) deleted. The price \<^verbatim>\<open>5'990.00\<close> followed by a blank and the
  Cyrillic currency label with its full stop gives \<^verbatim>\<open>5990\<close>; \<^verbatim>\<open>12.\<close> gives \<^verbatim>\<open>12\<close>; the label
  alone gives the empty string, returned as a result and not as an error.
\<close>

theorem price_conversion_digits_before_dot:
  "price_conversion (PStr s) =
     Inr (filter (\<lambda>c. 48 \<le> c \<and> c \<le> 57) (takeWhile (\<lambda>c. c \<noteq> 46) s))
   \<and> price_conversion (PStr (ascii ''5'990.00 '' @ [0x440, 0x443, 0x431] @ ascii ''.''))
       = Inr (ascii ''5990'')
   \<and> price_conversion (PStr (ascii ''12.'')) = Inr (ascii ''12'')
   \<and> price_conversion (PStr ([0x440, 0x443, 0x431] @ ascii ''.'')) = Inr []"
proof -
  have dig: "is_digit = (\<lambda>c. 48 \<le> c \<and> c \<le> 57)"
    by (simp add: fun_eq_iff is_digit_def)
  show ?thesis
    unfolding price_conversion_str dig by (simp add: ascii_def)
qed

lemma to_ascii_low: "\<forall>c \<in> set s. c < 127 \<Longrightarrow> to_ascii s = Some s"
  by (induction s) (auto simp: to_ascii_char_def)

lemma to_ascii_iff:
  "to_ascii s = Some xs \<longleftrightarrow> list_all2 (\<lambda>c x. to_ascii_char c = Some x) s xs"
proof (induction s arbitrary: xs)
  case Nil
  then show ?case by auto
next
  case (Cons c cs)
  show ?case
  proof (cases xs)
    case Nil
    then show ?thesis by (auto split: option.splits)
  next
    case (Cons y ys)
    then show ?thesis using Cons.IH[of ys] by (auto split: option.splits)
  qed
qed

lemma to_ascii_char_iff:
  "to_ascii_char c = Some x \<longleftrightarrow>
     (if c < 127 then x = c
      else if unicode_space c then x = 32
      else (\<exists>d. unicode_decimal c = Some d \<and> x = 48 + d))"
  by (auto simp: to_ascii_char_def)

lemma digit_group_iff:
  "digit_group g \<longleftrightarrow>
     g \<noteq> [] \<and> list_all digit_or_underscore g \<and> hd g \<noteq> 95 \<and> last g \<noteq> 95
     \<and> \<not> double_underscore g"
proof (induction g rule: digit_group.induct)
  case 1
  then show ?case by simp
next
  case (2 d)
  then show ?case by (auto simp: digit_or_underscore_def is_digit_def)
next
  case (3 d u cs)
  show ?case
  proof (cases "u = 95")
    case True
    then show ?thesis using 3
      by (cases cs) (auto simp: digit_or_underscore_def is_digit_def)
  next
    case False
    then show ?thesis using 3
      by (auto simp: digit_or_underscore_def is_digit_def)
  qed
qed

lemma space_not_digit: "ascii_space c \<Longrightarrow> \<not> digit_or_underscore c"
  by (auto simp: ascii_space_def digit_or_underscore_def is_digit_def)

lemma spaces_no_group:
  "list_all ascii_space t \<Longrightarrow> takeWhile digit_or_underscore t = [] \<and> dropWhile digit_or_underscore t = t"
  by (cases t) (auto simp: space_not_digit)

lemma digit_group_hd: "digit_group g \<Longrightarrow> \<exists>d r. g = d # r \<and> is_digit d"
  by (cases g rule: digit_group.cases) auto

lemma long_from_string_parts:
  assumes l: "list_all ascii_space l" and t: "list_all ascii_space t"
    and sg: "sig = [] \<or> sig = [43] \<or> sig = [45]"
    and g: "digit_group grp"
    and n: "length (filter is_digit grp) \<le> int_max_str_digits"
  shows "long_from_string (l @ sig @ grp @ t)
           = Some (if sig = [45] then - int (decimal_value (filter is_digit grp))
                   else int (decimal_value (filter is_digit grp)))"
proof -
  obtain d r where grp: "grp = d # r" and d: "is_digit d" using digit_group_hd[OF g] by blast
  have dns: "\<not> ascii_space d" "d \<noteq> 43" "d \<noteq> 45"
    using d by (auto simp: is_digit_def ascii_space_def)
  have "dropWhile ascii_space (l @ sig @ grp @ t) = dropWhile ascii_space (sig @ grp @ t)"
    using l by (simp add: list_all_iff dropWhile_append2)
  also have "\<dots> = sig @ grp @ t"
    using sg dns grp by (auto simp: ascii_space_def)
  finally have dw: "dropWhile ascii_space (l @ sig @ grp @ t) = sig @ grp @ t" .
  have ds: "drop_sign (sig @ grp @ t) = (if sig = [45] then - 1 else 1, grp @ t)"
    using sg dns grp by (auto simp: drop_sign_def)
  have gg: "list_all digit_or_underscore grp" "grp \<noteq> []" "hd grp \<noteq> 95" "last grp \<noteq> 95"
    "\<not> double_underscore grp"
    using g by (simp_all add: digit_group_iff)
  have tw: "takeWhile digit_or_underscore (grp @ t) = grp"
    using gg(1) spaces_no_group[OF t] by (simp add: list_all_iff takeWhile_append2)
  have dr: "dropWhile digit_or_underscore (grp @ t) = t"
    using gg(1) spaces_no_group[OF t] by (simp add: list_all_iff dropWhile_append2)
  have dt: "dropWhile ascii_space t = []" using t by (simp add: list_all_iff)
  show ?thesis
    using gg(2-5) n by (simp add: long_from_string_def dw ds tw dr dt)
qed

lemma long_from_string_shape:
  assumes "long_from_string a = Some v"
  shows "\<exists>l sig grp t. a = l @ sig @ grp @ t \<and> list_all ascii_space l \<and> list_all ascii_space t
           \<and> (sig = [] \<or> sig = [43] \<or> sig = [45]) \<and> digit_group grp
           \<and> length (filter is_digit grp) \<le> int_max_str_digits
           \<and> v = (if sig = [45] then - int (decimal_value (filter is_digit grp))
                    else int (decimal_value (filter is_digit grp)))"
proof -
  define l where "l = takeWhile ascii_space a"
  define r0 where "r0 = dropWhile ascii_space a"
  define sig where "sig = (case r0 of [] \<Rightarrow> [] | c # cs \<Rightarrow> if c = 43 \<or> c = 45 then [c] else [])"
  define r where "r = snd (drop_sign r0)"
  define grp where "grp = takeWhile digit_or_underscore r"
  define t where "t = dropWhile digit_or_underscore r"
  have a: "a = l @ r0" by (simp add: l_def r0_def)
  have r0: "r0 = sig @ r"
    by (auto simp: sig_def r_def drop_sign_def split: list.splits)
  have r: "r = grp @ t" by (simp add: grp_def t_def)
  have sg: "sig = [] \<or> sig = [43] \<or> sig = [45]"
    by (auto simp: sig_def split: list.splits)
  have fs: "fst (drop_sign r0) = (if sig = [45] then - 1 else 1)"
    by (auto simp: sig_def drop_sign_def split: list.splits)
  have ll: "list_all ascii_space l"
    by (auto simp: l_def list_all_iff dest: set_takeWhileD)
  have lf: "long_from_string a =
      (if grp = [] \<or> hd grp = 95 \<or> last grp = 95 \<or> double_underscore grp then None
       else if int_max_str_digits < length (filter is_digit grp) then None
       else if dropWhile ascii_space t \<noteq> [] then None
       else Some (fst (drop_sign r0) * int (decimal_value (filter is_digit grp))))"
    by (simp add: long_from_string_def r0_def[symmetric] r_def grp_def t_def case_prod_beta)
  have c: "grp \<noteq> []" "hd grp \<noteq> 95" "last grp \<noteq> 95" "\<not> double_underscore grp"
    "\<not> int_max_str_digits < length (filter is_digit grp)" "dropWhile ascii_space t = []"
    and v: "v = fst (drop_sign r0) * int (decimal_value (filter is_digit grp))"
    using assms unfolding lf by (auto split: if_splits)
  have gl: "list_all digit_or_underscore grp"
    by (auto simp: grp_def list_all_iff dest: set_takeWhileD)
  have dg: "digit_group grp" using c(1-4) gl by (simp add: digit_group_iff)
  have tl: "list_all ascii_space t" using c(6) by (simp add: list_all_iff dropWhile_eq_Nil_conv)
  have "a = l @ sig @ grp @ t" using a r0 r by simp
  moreover have "v = (if sig = [45] then - int (decimal_value (filter is_digit grp))
                    else int (decimal_value (filter is_digit grp)))"
    using v fs by simp
  ultimately show ?thesis using ll tl sg dg c(5) by (intro exI[of _ l] exI[of _ sig] exI[of _ grp] exI[of _ t]) simp
qed


lemma digits_digit_group: "ds \<noteq> [] \<Longrightarrow> list_all is_digit ds \<Longrightarrow> digit_group ds"
proof (induction ds rule: digit_group.induct)
  case 1
  then show ?case by simp
next
  case (2 d)
  then show ?case by simp
next
  case (3 d u cs)
  then show ?case by (auto simp: is_digit_def)
qed

lemma long_from_string_digits:
  assumes "ds \<noteq> []" "list_all is_digit ds"
  shows "long_from_string ds =
           (if length ds \<le> int_max_str_digits then Some (int (decimal_value ds)) else None)"
proof (cases "length ds \<le> int_max_str_digits")
  case True
  have f: "filter is_digit ds = ds" using assms(2) by (simp add: list_all_iff)
  show ?thesis
    using long_from_string_parts[of "[]" "[]" "[]" ds] digits_digit_group[OF assms] True
    by (simp add: f)
next
  case False
  show ?thesis
  proof (cases "long_from_string ds")
    case None
    then show ?thesis using False by simp
  next
    case (Some v)
    obtain l sig grp t where p: "ds = l @ sig @ grp @ t" "list_all ascii_space l"
      "list_all ascii_space t" "sig = [] \<or> sig = [43] \<or> sig = [45]" "digit_group grp"
      "length (filter is_digit grp) \<le> int_max_str_digits"
      using long_from_string_shape[OF Some] by blast
    have nd: "\<And>c. ascii_space c \<Longrightarrow> \<not> is_digit c"
      by (auto simp: ascii_space_def is_digit_def)
    have "l = []" using p(1,2) assms(2) nd by (cases l) auto
    moreover have "t = []" using p(1,3) assms(2) nd by (cases t) auto
    moreover have "sig = []" using p(1,4) assms(2) by (auto simp: is_digit_def)
    ultimately have "grp = ds" using p(1) by simp
    then have "length ds \<le> int_max_str_digits"
      using p(6) assms(2) by (simp add: list_all_iff)
    then show ?thesis using False by simp
  qed
qed

lemma int_of_str_digits:
  assumes "ds \<noteq> []" "list_all is_digit ds"
  shows "int_of_str ds =
           (if length ds \<le> int_max_str_digits then Some (int (decimal_value ds)) else None)"
proof -
  have "\<forall>c \<in> set ds. c < 127" using assms(2) by (auto simp: is_digit_def list_all_iff)
  then show ?thesis
    using long_from_string_digits[OF assms] by (simp add: int_of_str_def to_ascii_low)
qed

lemma int_of_str_minus_digits:
  assumes "ds \<noteq> []" "list_all is_digit ds" "length ds \<le> int_max_str_digits"
  shows "int_of_str (45 # ds) = Some (- int (decimal_value ds))"
proof -
  have "\<forall>c \<in> set (45 # ds). c < 127" using assms(2) by (auto simp: is_digit_def list_all_iff)
  then have a: "to_ascii (45 # ds) = Some (45 # ds)" by (rule to_ascii_low)
  have f: "filter is_digit ds = ds" using assms(2) by (simp add: list_all_iff)
  have "long_from_string (45 # ds) = Some (- int (decimal_value ds))"
    using long_from_string_parts[of "[]" "[]" "[45]" ds] digits_digit_group[OF assms(1,2)] assms(3)
    by (simp add: f)
  then show ?thesis unfolding int_of_str_def a by simp
qed

lemma decimal_value_snoc: "decimal_value (ds @ [c]) = 10 * decimal_value ds + (c - 48)"
  by (simp add: decimal_value_def)

lemma digits_of_nat_props:
  "digits_of_nat n \<noteq> [] \<and> list_all is_digit (digits_of_nat n)
   \<and> decimal_value (digits_of_nat n) = n"
proof (induction n rule: digits_of_nat.induct)
  case (1 n)
  show ?case
  proof (cases "n < 10")
    case True
    then have "digits_of_nat n = [48 + n]" by (subst digits_of_nat.simps) simp
    then show ?thesis using True by (simp add: is_digit_def decimal_value_def)
  next
    case False
    have e: "digits_of_nat n = digits_of_nat (n div 10) @ [48 + n mod 10]"
      using False by (subst digits_of_nat.simps) simp
    have "n mod 10 < 10" by simp
    then have d: "is_digit (48 + n mod 10)" by (simp add: is_digit_def)
    show ?thesis using 1[OF False] d by (simp add: e decimal_value_snoc)
  qed
qed

lemma length_digits_of_nat: "n < 10 ^ k \<Longrightarrow> 0 < k \<Longrightarrow> length (digits_of_nat n) \<le> k"
proof (induction n arbitrary: k rule: digits_of_nat.induct)
  case (1 n)
  show ?case
  proof (cases "n < 10")
    case True
    then show ?thesis using "1.prems" by (subst digits_of_nat.simps) simp
  next
    case False
    obtain j where k: "k = Suc j" using "1.prems"(2) by (cases k) auto
    have "n div 10 < 10 ^ j" using "1.prems"(1) k by (simp add: less_mult_imp_div_less)
    moreover have "0 < j" using False "1.prems"(1) k by (cases j) auto
    ultimately have "length (digits_of_nat (n div 10)) \<le> j" using "1.IH"[OF False] by blast
    then show ?thesis using False k by (subst digits_of_nat.simps) simp
  qed
qed

lemma int_of_str_str_of_int:
  assumes "\<bar>i\<bar> < 10 ^ int_max_str_digits"
  shows "int_of_str (str_of_int i) = Some i"
proof -
  let ?n = "nat \<bar>i\<bar>"
  have "int ?n < 10 ^ int_max_str_digits" using assms by simp
  then have "?n < 10 ^ int_max_str_digits"
    by (metis of_nat_less_iff of_nat_numeral of_nat_power)
  then have len: "length (digits_of_nat ?n) \<le> int_max_str_digits"
    by (rule length_digits_of_nat) (simp add: int_max_str_digits_def)
  have p: "digits_of_nat ?n \<noteq> []" "list_all is_digit (digits_of_nat ?n)"
    "decimal_value (digits_of_nat ?n) = ?n"
    using digits_of_nat_props[of ?n] by blast+
  show ?thesis
  proof (cases "i < 0")
    case True
    then have s: "str_of_int i = 45 # digits_of_nat ?n" by (simp add: str_of_int_def)
    have "int_of_str (45 # digits_of_nat ?n) = Some (- int ?n)"
      using int_of_str_minus_digits[OF p(1,2) len] by (simp only: p(3))
    then show ?thesis using True by (simp add: s)
  next
    case False
    then have s: "str_of_int i = digits_of_nat ?n" by (simp add: str_of_int_def)
    have "int_of_str (digits_of_nat ?n) = Some (int ?n)"
      using int_of_str_digits[OF p(1,2)] len by (simp only: p(3) if_True)
    then show ?thesis using False by (simp add: s)
  qed
qed

lemma str_of_int_not_special:
  "str_of_int i \<noteq> ascii ''>10'' \<and> (str_of_int i = ascii ''1'' \<longrightarrow> i = 1)"
proof -
  note p = digits_of_nat_props
  have a: "str_of_int i \<noteq> ascii ''>10''"
  proof
    assume e: "str_of_int i = ascii ''>10''"
    show False
    proof (cases "i < 0")
      case True
      then show ?thesis using e by (simp add: str_of_int_def ascii_def)
    next
      case False
      then have "list_all is_digit (ascii ''>10'')" using e p[of "nat i"] by (simp add: str_of_int_def)
      then show ?thesis by (simp add: ascii_def is_digit_def)
    qed
  qed
  have b: "str_of_int i = ascii ''1'' \<longrightarrow> i = 1"
  proof
    assume e: "str_of_int i = ascii ''1''"
    show "i = 1"
    proof (cases "i < 0")
      case True
      then show ?thesis using e by (simp add: str_of_int_def ascii_def)
    next
      case False
      then have "digits_of_nat (nat i) = ascii ''1''" using e by (simp add: str_of_int_def)
      then have "decimal_value (ascii ''1'') = nat i" using p[of "nat i"] by simp
      then show ?thesis using False by (simp add: ascii_def decimal_value_def)
    qed
  qed
  show ?thesis using a b by blast
qed

lemma parse_quantity_other:
  "s \<noteq> ascii ''>10'' \<Longrightarrow> s \<noteq> ascii ''1'' \<Longrightarrow>
     parse_quantity (PStr s) = (case int_of_str s of None \<Rightarrow> Inl ValueError | Some n \<Rightarrow> Inr n)"
  by (simp add: parse_quantity_def)

lemma int_of_str_iff:
  "int_of_str s = Some v \<longleftrightarrow>
     (\<exists>a l sig grp t.
        list_all2 (\<lambda>c x. if c < 127 then x = c
                          else if unicode_space c then x = 32
                          else (\<exists>d. unicode_decimal c = Some d \<and> x = 48 + d)) s a
        \<and> a = l @ sig @ grp @ t \<and> list_all ascii_space l \<and> list_all ascii_space t
        \<and> (sig = [] \<or> sig = [43] \<or> sig = [45]) \<and> digit_group grp
        \<and> length (filter is_digit grp) \<le> int_max_str_digits
        \<and> v = (if sig = [45] then - int (decimal_value (filter is_digit grp))
                 else int (decimal_value (filter is_digit grp))))"
  (is "?L \<longleftrightarrow> ?R")
proof
  assume ?L
  then obtain a where a: "to_ascii s = Some a" and v: "long_from_string a = Some v"
    by (auto simp: int_of_str_def split: option.splits)
  have "list_all2 (\<lambda>c x. if c < 127 then x = c
                          else if unicode_space c then x = 32
                          else (\<exists>d. unicode_decimal c = Some d \<and> x = 48 + d)) s a"
    using a by (simp add: to_ascii_iff to_ascii_char_iff)
  then show ?R using long_from_string_shape[OF v] by blast
next
  assume ?R
  then obtain a l sig grp t where
    m: "list_all2 (\<lambda>c x. if c < 127 then x = c
                          else if unicode_space c then x = 32
                          else (\<exists>d. unicode_decimal c = Some d \<and> x = 48 + d)) s a"
    and p: "a = l @ sig @ grp @ t" "list_all ascii_space l" "list_all ascii_space t"
      "sig = [] \<or> sig = [43] \<or> sig = [45]" "digit_group grp"
      "length (filter is_digit grp) \<le> int_max_str_digits"
    and v: "v = (if sig = [45] then - int (decimal_value (filter is_digit grp))
                 else int (decimal_value (filter is_digit grp)))"
    by blast
  have a: "to_ascii s = Some a" using m by (simp add: to_ascii_iff to_ascii_char_iff)
  have "long_from_string a = Some v"
    unfolding p(1) v by (rule long_from_string_parts[OF p(2,3,4,5,6)])
  then show ?L by (simp add: int_of_str_def a)
qed

text \<open>
  Claim C6, as stated: every string other than \<^verbatim>\<open>>10\<close> and \<^verbatim>\<open>1\<close> goes to its value as a
  base-10 integer literal. It does not when the literal is too long: \<^verbatim>\<open>int\<close> refuses a
  text of more than 4300 digits, so the string of 4301 sevens, a base-10 integer literal,
  fails with \<^verbatim>\<open>ValueError\<close>.
\<close>

theorem quantity_digit_limit_counterexample:
  "replicate 4301 (55::nat) \<noteq> [] \<and> list_all is_digit (replicate 4301 55)
   \<and> replicate 4301 55 \<noteq> ascii ''>10'' \<and> replicate 4301 55 \<noteq> ascii ''1''
   \<and> parse_quantity (PStr (replicate 4301 55)) = Inl ValueError"
proof -
  let ?d = "replicate 4301 (55::nat)"
  have len: "length ?d = 4301" by (simp only: length_replicate)
  have ne: "?d \<noteq> []" using len by auto
  have dg: "list_all is_digit ?d" by (simp add: list_all_iff is_digit_def)
  have n10: "?d \<noteq> ascii ''>10''"
  proof
    assume "?d = ascii ''>10''"
    then have "length ?d = length (ascii ''>10'')" by (rule arg_cong)
    then show False unfolding len by (simp add: ascii_def)
  qed
  have n1: "?d \<noteq> ascii ''1''"
  proof
    assume "?d = ascii ''1''"
    then have "length ?d = length (ascii ''1'')" by (rule arg_cong)
    then show False unfolding len by (simp add: ascii_def)
  qed
  have "int_of_str ?d = None"
    using int_of_str_digits[OF ne dg] len by (simp add: int_max_str_digits_def)
  then have "parse_quantity (PStr ?d) = Inl ValueError"
    using parse_quantity_other[OF n10 n1] by simp
  then show ?thesis using ne dg n10 n1 by blast
qed

text \<open>
  Claim C6, amended. The quantity rule maps the string \<^verbatim>\<open>>10\<close> to 100 and the string \<^verbatim>\<open>1\<close>
  to 0. Every other string \<open>s\<close> gives the value \<open>v\<close> exactly when \<open>s\<close>, with every Unicode
  space read as a blank and every Unicode decimal digit as its ASCII digit, is white
  space, an optional sign, a group of at most 4300 digits in which single underscores may
  separate digits, and white space, \<open>v\<close> being the signed decimal value of the digits; every
  other such string fails with \<^verbatim>\<open>ValueError\<close>. So \<^verbatim>\<open>7\<close> gives 7, \<^verbatim>\<open>-5\<close> gives -5, \<^verbatim>\<open>abc\<close> and
  \<^verbatim>\<open>12abc\<close> fail, a non-empty string of ASCII digits other than \<^verbatim>\<open>1\<close> gives the number it
  writes when it has at most 4300 digits and fails otherwise, and the decimal text
  \<^verbatim>\<open>str(i)\<close> of every integer \<open>i\<close> other than 1 with at most 4300 digits gives \<open>i\<close> back.
\<close>

theorem parse_quantity_strings:
  "parse_quantity (PStr (ascii ''>10'')) = Inr 100
   \<and> parse_quantity (PStr (ascii ''1'')) = Inr 0
   \<and> parse_quantity (PStr (ascii ''7'')) = Inr 7
   \<and> parse_quantity (PStr (ascii ''abc'')) = Inl ValueError
   \<and> parse_quantity (PStr (ascii ''-5'')) = Inr (- 5)
   \<and> parse_quantity (PStr (ascii ''12abc'')) = Inl ValueError
   \<and> parse_quantity (PStr [0x661, 0x662]) = Inr 12
   \<and> int_max_str_digits = 4300
   \<and> (s \<noteq> ascii ''>10'' \<and> s \<noteq> ascii ''1'' \<longrightarrow>
        (parse_quantity (PStr s) = Inr v \<longleftrightarrow>
           (\<exists>a l sig grp t.
              list_all2 (\<lambda>c x. if c < 127 then x = c
                                else if unicode_space c then x = 32
                                else (\<exists>d. unicode_decimal c = Some d \<and> x = 48 + d)) s a
              \<and> a = l @ sig @ grp @ t \<and> list_all ascii_space l \<and> list_all ascii_space t
              \<and> (sig = [] \<or> sig = [43] \<or> sig = [45]) \<and> digit_group grp
              \<and> length (filter is_digit grp) \<le> int_max_str_digits
              \<and> v = (if sig = [45] then - int (decimal_value (filter is_digit grp))
                       else int (decimal_value (filter is_digit grp)))))
        \<and> ((\<exists>n. parse_quantity (PStr s) = Inr n) \<or> parse_quantity (PStr s) = Inl ValueError))
   \<and> (ds \<noteq> [] \<and> list_all is_digit ds \<and> ds \<noteq> ascii ''1'' \<longrightarrow>
        parse_quantity (PStr ds)
          = (if length ds \<le> int_max_str_digits then Inr (int (decimal_value ds))
             else Inl ValueError))
   \<and> (i \<noteq> 1 \<and> \<bar>i\<bar> < 10 ^ int_max_str_digits \<longrightarrow>
        parse_quantity (PStr (str_of_int i)) = Inr i)"
proof -
  have a: "parse_quantity (PStr (ascii ''>10'')) = Inr 100" by (simp add: parse_quantity_def)
  have b: "parse_quantity (PStr (ascii ''1'')) = Inr 0" by (simp add: parse_quantity_def ascii_def)
  have c: "parse_quantity (PStr (ascii ''7'')) = Inr 7" by (simp add: py_eval)
  have d: "parse_quantity (PStr (ascii ''abc'')) = Inl ValueError" by (simp add: py_eval)
  have e: "parse_quantity (PStr (ascii ''-5'')) = Inr (- 5)" by (simp add: py_eval)
  have f: "parse_quantity (PStr (ascii ''12abc'')) = Inl ValueError" by (simp add: py_eval)
  have g: "parse_quantity (PStr [0x661, 0x662]) = Inr 12"
    by (simp add: py_eval unicode_space_def unicode_decimal_def decimal_runs_def)
  have h: "int_max_str_digits = 4300" by (simp add: int_max_str_digits_def)
  have k: "s \<noteq> ascii ''>10'' \<and> s \<noteq> ascii ''1'' \<longrightarrow>
        (parse_quantity (PStr s) = Inr v \<longleftrightarrow>
           (\<exists>a l sig grp t.
              list_all2 (\<lambda>c x. if c < 127 then x = c
                                else if unicode_space c then x = 32
                                else (\<exists>d. unicode_decimal c = Some d \<and> x = 48 + d)) s a
              \<and> a = l @ sig @ grp @ t \<and> list_all ascii_space l \<and> list_all ascii_space t
              \<and> (sig = [] \<or> sig = [43] \<or> sig = [45]) \<and> digit_group grp
              \<and> length (filter is_digit grp) \<le> int_max_str_digits
              \<and> v = (if sig = [45] then - int (decimal_value (filter is_digit grp))
                       else int (decimal_value (filter is_digit grp)))))
        \<and> ((\<exists>n. parse_quantity (PStr s) = Inr n) \<or> parse_quantity (PStr s) = Inl ValueError)"
  proof (intro impI, elim conjE)
    assume n: "s \<noteq> ascii ''>10''" "s \<noteq> ascii ''1''"
    note q = parse_quantity_other[OF n]
    have 1: "parse_quantity (PStr s) = Inr v \<longleftrightarrow> int_of_str s = Some v"
      unfolding q by (cases "int_of_str s") auto
    have 2: "(\<exists>n. parse_quantity (PStr s) = Inr n) \<or> parse_quantity (PStr s) = Inl ValueError"
      unfolding q by (cases "int_of_str s") auto
    show "(parse_quantity (PStr s) = Inr v \<longleftrightarrow>
           (\<exists>a l sig grp t.
              list_all2 (\<lambda>c x. if c < 127 then x = c
                                else if unicode_space c then x = 32
                                else (\<exists>d. unicode_decimal c = Some d \<and> x = 48 + d)) s a
              \<and> a = l @ sig @ grp @ t \<and> list_all ascii_space l \<and> list_all ascii_space t
              \<and> (sig = [] \<or> sig = [43] \<or> sig = [45]) \<and> digit_group grp
              \<and> length (filter is_digit grp) \<le> int_max_str_digits
              \<and> v = (if sig = [45] then - int (decimal_value (filter is_digit grp))
                       else int (decimal_value (filter is_digit grp)))))
        \<and> ((\<exists>n. parse_quantity (PStr s) = Inr n) \<or> parse_quantity (PStr s) = Inl ValueError)"
      unfolding 1 int_of_str_iff using 2 unfolding 1 by blast
  qed
  have l: "ds \<noteq> [] \<and> list_all is_digit ds \<and> ds \<noteq> ascii ''1'' \<longrightarrow>
        parse_quantity (PStr ds)
          = (if length ds \<le> int_max_str_digits then Inr (int (decimal_value ds))
             else Inl ValueError)"
  proof (intro impI, elim conjE)
    assume h: "ds \<noteq> []" "list_all is_digit ds" "ds \<noteq> ascii ''1''"
    have "ds \<noteq> ascii ''>10''" using h(2) by (auto simp: ascii_def is_digit_def)
    from parse_quantity_other[OF this h(3)]
    show "parse_quantity (PStr ds)
          = (if length ds \<le> int_max_str_digits then Inr (int (decimal_value ds))
             else Inl ValueError)"
      by (simp add: int_of_str_digits[OF h(1,2)])
  qed
  have m: "i \<noteq> 1 \<and> \<bar>i\<bar> < 10 ^ int_max_str_digits \<longrightarrow>
        parse_quantity (PStr (str_of_int i)) = Inr i"
  proof (intro impI, elim conjE)
    assume h: "i \<noteq> 1" "\<bar>i\<bar> < 10 ^ int_max_str_digits"
    have n: "str_of_int i \<noteq> ascii ''>10''" "str_of_int i \<noteq> ascii ''1''"
      using str_of_int_not_special[of i] h(1) by blast+
    show "parse_quantity (PStr (str_of_int i)) = Inr i"
      unfolding parse_quantity_other[OF n] by (simp add: int_of_str_str_of_int[OF h(2)])
  qed
  show ?thesis using a b c d e f g h k l m by blast
qed

theorem parse_quantity_strings_witness:
  "ascii '' -1_0 '' \<noteq> ascii ''>10'' \<and> ascii '' -1_0 '' \<noteq> ascii ''1''
   \<and> parse_quantity (PStr (ascii '' -1_0 '')) = Inr (- 10)
   \<and> ascii ''42'' \<noteq> [] \<and> list_all is_digit (ascii ''42'') \<and> ascii ''42'' \<noteq> ascii ''1''
   \<and> parse_quantity (PStr (ascii ''42'')) = Inr 42
   \<and> (- 15 :: int) \<noteq> 1 \<and> \<bar>- 15 :: int\<bar> < 10 ^ int_max_str_digits
   \<and> parse_quantity (PStr (str_of_int (- 15))) = Inr (- 15)"
proof -
  note t = parse_quantity_strings[of "ascii '' -1_0 ''" "- 10" "ascii ''42''" "- 15"]
  note r = t[THEN conjunct2, THEN conjunct2, THEN conjunct2, THEN conjunct2, THEN conjunct2,
      THEN conjunct2, THEN conjunct2, THEN conjunct2, THEN conjunct2, THEN conjunct2]
  have s: "ascii '' -1_0 '' \<noteq> ascii ''>10''" "ascii '' -1_0 '' \<noteq> ascii ''1''"
    by (simp_all add: ascii_def)
  have sv: "parse_quantity (PStr (ascii '' -1_0 '')) = Inr (- 10)" by (simp add: py_eval)
  have d: "ascii ''42'' \<noteq> []" "list_all is_digit (ascii ''42'')" "ascii ''42'' \<noteq> ascii ''1''"
    by (simp_all add: ascii_def is_digit_def)
  have dv: "parse_quantity (PStr (ascii ''42'')) = Inr 42" by (simp add: py_eval)
  have "(10::int) ^ 2 \<le> 10 ^ int_max_str_digits"
    by (rule power_increasing) (simp_all add: int_max_str_digits_def)
  then have i: "(- 15 :: int) \<noteq> 1" "\<bar>- 15 :: int\<bar> < 10 ^ int_max_str_digits" by simp_all
  have iv: "parse_quantity (PStr (str_of_int (- 15))) = Inr (- 15)"
    by (rule r[THEN mp]) (intro conjI i)
  show ?thesis by (intro conjI s sv d dv i iv)
qed

section \<open>Properties of the batches\<close>

lemma range_length_pos:
  "0 < m \<Longrightarrow> range_length 0 (int len) (int m) = chunk_count len m"
proof (cases "len = 0")
  case True
  then show ?thesis by (simp add: range_length_def chunk_count_def)
next
  case False
  assume m: "0 < m"
  have "(int len - 1) div int m = int ((len - 1) div m)"
    using False by (simp add: zdiv_int of_nat_diff)
  then show ?thesis using m False by (simp add: range_length_def chunk_count_def nat_add_distrib)
qed

lemma take_min_length: "take (min a (length xs)) xs = take a xs"
  by (simp add: min_def)

lemma py_slice_chunk:
  "py_slice lst (int k * int m) (int k * int m + int m) = take m (drop (k * m) lst)"
proof -
  have a: "slice_index (int (length lst)) (int k * int m) = min (k * m) (length lst)"
    by (simp add: slice_index_def min_def nat_mult_distrib flip: of_nat_mult)
  have b: "slice_index (int (length lst)) (int k * int m + int m) = min (k * m + m) (length lst)"
    by (simp add: slice_index_def min_def nat_mult_distrib nat_add_distrib flip: of_nat_mult of_nat_add)
  show ?thesis
  proof (cases "k * m < length lst")
    case True
    have "min (k * m + m) (length lst) - k * m = min m (length (drop (k * m) lst))"
      using True by (auto simp: min_def)
    then show ?thesis using True by (simp add: py_slice_def a b take_min_length del: length_drop)
  next
    case False
    then show ?thesis by (simp add: py_slice_def a b)
  qed
qed

lemma divide_pos:
  assumes "0 < m"
  shows "divide lst (int m) =
           Inr (map (\<lambda>k. take m (drop (k * m) lst)) [0..<chunk_count (length lst) m])"
  using assms by (simp add: divide_def py_range_def range_length_pos py_slice_chunk)

lemma concat_chunks:
  "concat (map (\<lambda>k. take m (drop (k * m) lst)) [0..<c]) = take (c * m) lst"
proof (induction c)
  case 0
  then show ?case by simp
next
  case (Suc c)
  have "take (c * m + m) lst = take (c * m) lst @ take m (drop (c * m) lst)"
    by (simp add: take_add)
  then show ?case using Suc by (simp add: add.commute)
qed

lemma chunk_count_covers: "0 < m \<Longrightarrow> len \<le> chunk_count len m * m"
proof (cases "len = 0")
  case True then show ?thesis by (simp add: chunk_count_def)
next
  case False
  assume m: "0 < m"
  have "(len - 1) div m * m + (len - 1) mod m = len - 1" by simp
  moreover have "(len - 1) mod m < m" using m by simp
  ultimately have "len - 1 < (len - 1) div m * m + m" by linarith
  then show ?thesis using False by (simp add: chunk_count_def)
qed

lemma chunk_start_inside:
  assumes "0 < m" "k < chunk_count len m"
  shows "k * m < len"
proof -
  have l: "len \<noteq> 0" using assms(2) by (auto simp: chunk_count_def split: if_splits)
  have "k \<le> (len - 1) div m" using assms(2) l by (simp add: chunk_count_def)
  then have "k * m \<le> (len - 1) div m * m" by simp
  also have "\<dots> \<le> len - 1" by simp
  finally show ?thesis using l by simp
qed

lemma chunk_full:
  assumes "0 < m" "Suc k < chunk_count len m"
  shows "k * m + m \<le> len"
  using chunk_start_inside[OF assms] by simp


lemma divide_neg: "n < 0 \<Longrightarrow> divide lst n = Inr []"
  by (simp add: divide_def py_range_def range_length_def)

lemma divide_zero: "divide lst 0 = Inl ValueError"
  by (simp add: divide_def py_range_def)

text \<open>
  Claim C8. For every list and every size \<open>n > 0\<close>, \<^verbatim>\<open>divide\<close> yields the contiguous slices
  of length \<open>n\<close> of the list in their order: chunk \<open>i\<close> is the \<open>n\<close> elements from position
  \<open>i * n\<close>. Every chunk but the last has length \<open>n\<close>, and every chunk, so the last one too, has
  a length from 1 to \<open>n\<close>. The chunks concatenated are the list. The empty list yields no
  chunk, and a non-empty list shorter than \<open>n\<close> yields itself as the only chunk. Eight
  elements cut by 2 give four pairs.
\<close>

theorem divide_chunks:
  assumes "0 < n"
  shows "(\<exists>cs. divide lst n = Inr cs
           \<and> concat cs = lst
           \<and> (\<forall>i < length cs. cs ! i = take (nat n) (drop (i * nat n) lst))
           \<and> (\<forall>i < length cs. 1 \<le> length (cs ! i) \<and> length (cs ! i) \<le> nat n)
           \<and> (\<forall>i. Suc i < length cs \<longrightarrow> length (cs ! i) = nat n)
           \<and> (lst = [] \<longrightarrow> cs = [])
           \<and> (lst \<noteq> [] \<and> int (length lst) < n \<longrightarrow> cs = [lst]))
         \<and> divide [1, 2, 3, 4, 5, 6, 7, 8 :: int] 2 = Inr [[1, 2], [3, 4], [5, 6], [7, 8]]"
proof -
  define m where "m = nat n"
  have m: "0 < m" "n = int m" using assms by (simp_all add: m_def)
  define c where "c = chunk_count (length lst) m"
  define cs where "cs = map (\<lambda>k. take m (drop (k * m) lst)) [0..<c]"
  have d: "divide lst n = Inr cs"
    using divide_pos[OF m(1)] by (simp add: m(2) cs_def c_def)
  have len: "length cs = c" by (simp add: cs_def)
  have nth: "\<And>i. i < c \<Longrightarrow> cs ! i = take m (drop (i * m) lst)"
    by (simp add: cs_def)
  have cc: "concat cs = lst"
    using chunk_count_covers[OF m(1), of "length lst"] by (simp add: cs_def concat_chunks c_def)
  have bounds: "\<forall>i < length cs. 1 \<le> length (cs ! i) \<and> length (cs ! i) \<le> m"
  proof (intro allI impI)
    fix i assume "i < length cs"
    then have i: "i < c" by (simp add: len)
    have "i * m < length lst" using chunk_start_inside[OF m(1)] i by (simp add: c_def)
    then show "1 \<le> length (cs ! i) \<and> length (cs ! i) \<le> m"
      using m(1) by (simp add: nth[OF i])
  qed
  have full: "\<forall>i. Suc i < length cs \<longrightarrow> length (cs ! i) = m"
  proof (intro allI impI)
    fix i assume "Suc i < length cs"
    then have i: "Suc i < c" by (simp add: len)
    have "i * m + m \<le> length lst" using chunk_full[OF m(1)] i by (simp add: c_def)
    then show "length (cs ! i) = m" using i by (simp add: nth)
  qed
  have emp: "lst = [] \<longrightarrow> cs = []" by (simp add: cs_def c_def chunk_count_def)
  have one: "lst \<noteq> [] \<and> int (length lst) < n \<longrightarrow> cs = [lst]"
  proof (intro impI, elim conjE)
    assume h: "lst \<noteq> []" "int (length lst) < n"
    then have "length lst < m" by (simp add: m(2))
    then have "c = 1" using h(1) by (simp add: c_def chunk_count_def)
    then show "cs = [lst]" using \<open>length lst < m\<close> by (simp add: cs_def)
  qed
  have ex: "divide [1, 2, 3, 4, 5, 6, 7, 8 :: int] 2 = Inr [[1, 2], [3, 4], [5, 6], [7, 8]]"
    by (simp add: divide_def py_range_def range_length_def py_slice_def slice_index_def upt_rec)
  have "\<exists>cs. divide lst n = Inr cs
           \<and> concat cs = lst
           \<and> (\<forall>i < length cs. cs ! i = take (nat n) (drop (i * nat n) lst))
           \<and> (\<forall>i < length cs. 1 \<le> length (cs ! i) \<and> length (cs ! i) \<le> nat n)
           \<and> (\<forall>i. Suc i < length cs \<longrightarrow> length (cs ! i) = nat n)
           \<and> (lst = [] \<longrightarrow> cs = [])
           \<and> (lst \<noteq> [] \<and> int (length lst) < n \<longrightarrow> cs = [lst])"
    using d cc nth bounds full emp one by (auto simp: len m_def)
  then show ?thesis using ex by blast
qed

theorem divide_chunks_witness:
  "(0::int) < 2 \<and> divide [1, 2, 3, 4, 5 :: int] 2 = Inr [[1, 2], [3, 4], [5]]"
  using divide_chunks [of 2 "[1, 2, 3, 4, 5 :: int]"]
  by (simp add: divide_def py_range_def range_length_def py_slice_def slice_index_def upt_rec)

text \<open>
  Claim C9, as stated: for every size \<open>n \<le> 0\<close> \<^verbatim>\<open>divide\<close> fails with an error. It does not
  for a negative size: \<^verbatim>\<open>range(0, len(lst), n)\<close> is then empty and \<^verbatim>\<open>divide\<close> yields no chunk
  and raises nothing.
\<close>

theorem divide_negative_size_counterexample:
  "(- 1 :: int) \<le> 0 \<and> divide [1, 2, 3 :: int] (- 1) = Inr []"
  by (simp add: divide_def py_range_def range_length_def)

text \<open>
  Claim C9, amended. For every list, \<^verbatim>\<open>divide\<close> fails with \<^verbatim>\<open>ValueError\<close> (raised by \<^verbatim>\<open>range\<close>
  when the generator is first advanced) for the size 0, and for every negative size it
  yields no chunk and raises nothing.
\<close>

theorem divide_nonpositive_size:
  "divide lst 0 = Inl ValueError \<and> (n < 0 \<longrightarrow> divide lst n = Inr [])"
  by (simp add: divide_zero divide_neg)

theorem divide_nonpositive_size_witness:
  "(- 3 :: int) < 0 \<and> divide [10, 20 :: int] (- 3) = Inr [] \<and> divide [10, 20 :: int] 0 = Inl ValueError"
  using divide_nonpositive_size [of "[10, 20 :: int]" "- 3"] by simp

section \<open>Properties of the reconciliation\<close>

lemma stocks_scan_mset:
  "stocks_scan ws acc ids = (Inr st, ids') \<Longrightarrow>
     mset (map stock_offer_id st) + mset ids' = mset (map stock_offer_id acc) + mset ids"
proof (induction ws arbitrary: acc ids)
  case Nil
  then show ?case by simp
next
  case (Cons w ws)
  show ?case
  proof (cases "code w \<in> set ids")
    case False
    then show ?thesis using Cons by simp
  next
    case True
    then obtain q where q: "parse_quantity (Kolichestvo w) = Inr q"
      using Cons.prems by (cases "parse_quantity (Kolichestvo w)") auto
    have "stocks_scan ws (acc @ [\<lparr>stock_offer_id = code w, stock = q\<rparr>]) (remove1 (code w) ids)
            = (Inr st, ids')"
      using Cons.prems True q by simp
    from Cons.IH[OF this] show ?thesis using True by simp
  qed
qed

lemma create_stocks_mset:
  assumes "create_stocks ws ids = (Inr stocks, ids')"
  shows "mset (map stock_offer_id stocks) = mset ids"
proof -
  obtain st where st: "stocks_scan ws [] ids = (Inr st, ids')"
    and stocks: "stocks = st @ map (\<lambda>i. \<lparr>stock_offer_id = i, stock = 0\<rparr>) ids'"
    using assms by (auto simp: create_stocks_def split: prod.splits sum.splits)
  have "map stock_offer_id (map (\<lambda>i. \<lparr>stock_offer_id = i, stock = 0\<rparr>) ids') = ids'"
    by (induction ids') auto
  then show ?thesis using stocks_scan_mset[OF st] stocks by simp
qed

lemma stocks_scan_keeps:
  "stocks_scan ws acc ids = (Inr st, ids') \<Longrightarrow> c \<in> set ids \<Longrightarrow> c \<notin> code ` set ws \<Longrightarrow>
     c \<in> set ids'"
proof (induction ws arbitrary: acc ids)
  case Nil
  then show ?case by simp
next
  case (Cons w ws)
  have ne: "c \<noteq> code w" using Cons.prems(3) by auto
  show ?case
  proof (cases "code w \<in> set ids")
    case False
    then show ?thesis using Cons by simp
  next
    case True
    then obtain q where q: "parse_quantity (Kolichestvo w) = Inr q"
      using Cons.prems by (cases "parse_quantity (Kolichestvo w)") auto
    have s: "stocks_scan ws (acc @ [\<lparr>stock_offer_id = code w, stock = q\<rparr>]) (remove1 (code w) ids)
            = (Inr st, ids')"
      using Cons.prems True q by simp
    have "c \<in> set (remove1 (code w) ids)" using ne Cons.prems(2) by simp
    from Cons.IH[OF s this] show ?thesis using Cons.prems(3) by simp
  qed
qed

lemma stocks_scan_absent:
  "stocks_scan ws acc ids = (Inr st, ids') \<Longrightarrow> c \<notin> set ids \<Longrightarrow>
     filter (\<lambda>s. stock_offer_id s = c) st = filter (\<lambda>s. stock_offer_id s = c) acc \<and> c \<notin> set ids'"
proof (induction ws arbitrary: acc ids)
  case Nil
  then show ?case by simp
next
  case (Cons w ws)
  show ?case
  proof (cases "code w \<in> set ids")
    case False
    then show ?thesis using Cons by simp
  next
    case True
    then have ne: "code w \<noteq> c" using Cons.prems(2) by auto
    obtain q where q: "parse_quantity (Kolichestvo w) = Inr q"
      using Cons.prems True by (cases "parse_quantity (Kolichestvo w)") auto
    have s: "stocks_scan ws (acc @ [\<lparr>stock_offer_id = code w, stock = q\<rparr>]) (remove1 (code w) ids)
            = (Inr st, ids')"
      using Cons.prems True q by simp
    have "c \<notin> set (remove1 (code w) ids)" using Cons.prems(2) by (metis notin_set_remove1)
    from Cons.IH[OF s this] show ?thesis using ne by simp
  qed
qed

lemma stocks_scan_first_match:
  "stocks_scan ws acc ids = (Inr st, ids') \<Longrightarrow> c \<in> set ids \<Longrightarrow> distinct ids \<Longrightarrow>
   find (\<lambda>w. code w = c) ws = Some w1 \<Longrightarrow>
     \<exists>q. parse_quantity (Kolichestvo w1) = Inr q
       \<and> filter (\<lambda>s. stock_offer_id s = c) st
           = filter (\<lambda>s. stock_offer_id s = c) acc @ [\<lparr>stock_offer_id = c, stock = q\<rparr>]
       \<and> c \<notin> set ids'"
proof (induction ws arbitrary: acc ids)
  case Nil
  then show ?case by simp
next
  case (Cons w ws)
  show ?case
  proof (cases "code w \<in> set ids")
    case False
    then have "code w \<noteq> c" using Cons.prems(2) by auto
    then show ?thesis using Cons False by simp
  next
    case True
    obtain q where q: "parse_quantity (Kolichestvo w) = Inr q"
      using Cons.prems True by (cases "parse_quantity (Kolichestvo w)") auto
    have s: "stocks_scan ws (acc @ [\<lparr>stock_offer_id = code w, stock = q\<rparr>]) (remove1 (code w) ids)
            = (Inr st, ids')"
      using Cons.prems True q by simp
    show ?thesis
    proof (cases "code w = c")
      case True
      then have w1: "w1 = w" using Cons.prems(4) by simp
      have "c \<notin> set (remove1 (code w) ids)" using True Cons.prems(3) by simp
      from stocks_scan_absent[OF s this] show ?thesis using w1 q True by simp
    next
      case False
      have a: "c \<in> set (remove1 (code w) ids)" using False Cons.prems(2) by simp
      have b: "distinct (remove1 (code w) ids)" using Cons.prems(3) by simp
      have c: "find (\<lambda>w. code w = c) ws = Some w1" using False Cons.prems(4) by simp
      from Cons.IH[OF s a b c] show ?thesis using False by simp
    qed
  qed
qed

lemma stocks_scan_no_row:
  "stocks_scan ws acc ids = (Inr st, ids') \<Longrightarrow> c \<notin> code ` set ws \<Longrightarrow>
     filter (\<lambda>s. stock_offer_id s = c) st = filter (\<lambda>s. stock_offer_id s = c) acc"
proof (induction ws arbitrary: acc ids)
  case Nil
  then show ?case by simp
next
  case (Cons w ws)
  have ne: "code w \<noteq> c" using Cons.prems(2) by auto
  have nin: "c \<notin> code ` set ws" using Cons.prems(2) by auto
  show ?case
  proof (cases "code w \<in> set ids")
    case False
    then show ?thesis using Cons.IH[OF _ nin] Cons.prems(1) by simp
  next
    case True
    obtain q where q: "parse_quantity (Kolichestvo w) = Inr q"
      using Cons.prems(1) True by (cases "parse_quantity (Kolichestvo w)") auto
    have s: "stocks_scan ws (acc @ [\<lparr>stock_offer_id = code w, stock = q\<rparr>]) (remove1 (code w) ids)
            = (Inr st, ids')"
      using Cons.prems(1) True q by simp
    from Cons.IH[OF s nin] show ?thesis using ne by simp
  qed
qed

lemma stocks_scan_distinct:
  "stocks_scan ws acc ids = (Inr st, ids') \<Longrightarrow> distinct ids \<Longrightarrow> distinct ids'"
proof (induction ws arbitrary: acc ids)
  case Nil
  then show ?case by simp
next
  case (Cons w ws)
  show ?case
  proof (cases "code w \<in> set ids")
    case False
    then show ?thesis using Cons by simp
  next
    case True
    obtain q where q: "parse_quantity (Kolichestvo w) = Inr q"
      using Cons.prems(1) True by (cases "parse_quantity (Kolichestvo w)") auto
    have s: "stocks_scan ws (acc @ [\<lparr>stock_offer_id = code w, stock = q\<rparr>]) (remove1 (code w) ids)
            = (Inr st, ids')"
      using Cons.prems(1) True q by simp
    from Cons.IH[OF s] show ?thesis using Cons.prems(2) by simp
  qed
qed

lemma filter_zero_entries:
  "distinct ids \<Longrightarrow>
     filter (\<lambda>s. stock_offer_id s = c) (map (\<lambda>i. \<lparr>stock_offer_id = i, stock = 0\<rparr>) ids)
       = (if c \<in> set ids then [\<lparr>stock_offer_id = c, stock = 0\<rparr>] else [])"
  by (induction ids) auto

lemma create_stocks_entry_of_id:
  assumes r: "create_stocks ws ids = (Inr stocks, ids')" and d: "distinct ids" and c: "c \<in> set ids"
  shows "(\<forall>w1. find (\<lambda>w. code w = c) ws = Some w1 \<longrightarrow>
            (\<exists>q. parse_quantity (Kolichestvo w1) = Inr q
                \<and> filter (\<lambda>s. stock_offer_id s = c) stocks = [\<lparr>stock_offer_id = c, stock = q\<rparr>]))
         \<and> (c \<notin> code ` set ws \<longrightarrow>
              filter (\<lambda>s. stock_offer_id s = c) stocks = [\<lparr>stock_offer_id = c, stock = 0\<rparr>])"
proof -
  obtain st where st: "stocks_scan ws [] ids = (Inr st, ids')"
    and stocks: "stocks = st @ map (\<lambda>i. \<lparr>stock_offer_id = i, stock = 0\<rparr>) ids'"
    using r by (auto simp: create_stocks_def split: prod.splits sum.splits)
  have d': "distinct ids'" using stocks_scan_distinct[OF st d] .
  have a: "\<forall>w1. find (\<lambda>w. code w = c) ws = Some w1 \<longrightarrow>
            (\<exists>q. parse_quantity (Kolichestvo w1) = Inr q
                \<and> filter (\<lambda>s. stock_offer_id s = c) stocks = [\<lparr>stock_offer_id = c, stock = q\<rparr>])"
  proof (intro allI impI)
    fix w1 assume f: "find (\<lambda>w. code w = c) ws = Some w1"
    obtain q where q: "parse_quantity (Kolichestvo w1) = Inr q"
      and fs: "filter (\<lambda>s. stock_offer_id s = c) st = [\<lparr>stock_offer_id = c, stock = q\<rparr>]"
      and nin: "c \<notin> set ids'"
      using stocks_scan_first_match[OF st c d f] by auto
    have "filter (\<lambda>s. stock_offer_id s = c) stocks = [\<lparr>stock_offer_id = c, stock = q\<rparr>]"
      using fs nin by (simp add: stocks filter_zero_entries[OF d'])
    then show "\<exists>q. parse_quantity (Kolichestvo w1) = Inr q
                \<and> filter (\<lambda>s. stock_offer_id s = c) stocks = [\<lparr>stock_offer_id = c, stock = q\<rparr>]"
      using q by blast
  qed
  have b: "c \<notin> code ` set ws \<longrightarrow>
              filter (\<lambda>s. stock_offer_id s = c) stocks = [\<lparr>stock_offer_id = c, stock = 0\<rparr>]"
  proof
    assume n: "c \<notin> code ` set ws"
    have "c \<in> set ids'" using stocks_scan_keeps[OF st c n] .
    moreover have "filter (\<lambda>s. stock_offer_id s = c) st = []"
      using stocks_scan_no_row[OF st n] by simp
    ultimately show "filter (\<lambda>s. stock_offer_id s = c) stocks = [\<lparr>stock_offer_id = c, stock = 0\<rparr>]"
      by (simp add: stocks filter_zero_entries[OF d'])
  qed
  show ?thesis using a b by blast
qed

text \<open>
  Claim C1. For every list of supplier rows and every set of offer ids (a list without
  repetition), the list \<^verbatim>\<open>create_stocks\<close> returns has as many entries as there are offer
  ids, the offer ids of its entries are exactly the given ones, and each occurs once. The
  one entry of an offer id that rows carry has the stock the quantity rule gives for the
  first such row; the one entry of an offer id that no row carries has stock 0.
\<close>

theorem create_stocks_covers_offer_ids:
  assumes "create_stocks ws ids = (Inr stocks, ids')" and "distinct ids"
  shows "length stocks = card (set ids)
         \<and> set (map stock_offer_id stocks) = set ids
         \<and> distinct (map stock_offer_id stocks)
         \<and> (\<forall>c \<in> set ids. c \<notin> code ` set ws \<longrightarrow> \<lparr>stock_offer_id = c, stock = 0\<rparr> \<in> set stocks)
         \<and> (\<forall>c \<in> set ids. \<forall>w1. find (\<lambda>w. code w = c) ws = Some w1 \<longrightarrow>
               (\<exists>q. parse_quantity (Kolichestvo w1) = Inr q
                   \<and> filter (\<lambda>s. stock_offer_id s = c) stocks
                       = [\<lparr>stock_offer_id = c, stock = q\<rparr>]))
         \<and> (\<forall>c \<in> set ids. c \<notin> code ` set ws \<longrightarrow>
               filter (\<lambda>s. stock_offer_id s = c) stocks = [\<lparr>stock_offer_id = c, stock = 0\<rparr>])"
proof -
  have m: "mset (map stock_offer_id stocks) = mset ids" using create_stocks_mset[OF assms(1)] .
  have l: "length stocks = length ids" using m by (metis length_map size_mset)
  have s: "set (map stock_offer_id stocks) = set ids" using m by (metis set_mset_mset)
  have d: "distinct (map stock_offer_id stocks)" using m assms(2) by (metis mset_eq_imp_distinct_iff)
  obtain st where st: "stocks_scan ws [] ids = (Inr st, ids')"
    and stocks: "stocks = st @ map (\<lambda>i. \<lparr>stock_offer_id = i, stock = 0\<rparr>) ids'"
    using assms(1) by (auto simp: create_stocks_def split: prod.splits sum.splits)
  have z: "\<forall>c \<in> set ids. c \<notin> code ` set ws \<longrightarrow> \<lparr>stock_offer_id = c, stock = 0\<rparr> \<in> set stocks"
    using stocks_scan_keeps[OF st] stocks by auto
  have e: "\<forall>c \<in> set ids. \<forall>w1. find (\<lambda>w. code w = c) ws = Some w1 \<longrightarrow>
               (\<exists>q. parse_quantity (Kolichestvo w1) = Inr q
                   \<and> filter (\<lambda>s. stock_offer_id s = c) stocks
                       = [\<lparr>stock_offer_id = c, stock = q\<rparr>])"
    using create_stocks_entry_of_id[OF assms] by blast
  have f: "\<forall>c \<in> set ids. c \<notin> code ` set ws \<longrightarrow>
               filter (\<lambda>s. stock_offer_id s = c) stocks = [\<lparr>stock_offer_id = c, stock = 0\<rparr>]"
    using create_stocks_entry_of_id[OF assms] by blast
  show ?thesis using l s d z e f assms(2) by (simp add: distinct_card)
qed

theorem create_stocks_covers_offer_ids_witness:
  "create_stocks [row ''Z'' ''9'' ''1.00'', row ''A'' ''5'' ''100.00 rub.'', row ''B'' ''1'' ''50.00 rub.'']
       [ascii ''A'', ascii ''B'', ascii ''C'']
     = (Inr [\<lparr>stock_offer_id = ascii ''A'', stock = 5\<rparr>, \<lparr>stock_offer_id = ascii ''B'', stock = 0\<rparr>,
             \<lparr>stock_offer_id = ascii ''C'', stock = 0\<rparr>], [ascii ''C''])
   \<and> distinct [ascii ''A'', ascii ''B'', ascii ''C'']
   \<and> card (set [ascii ''A'', ascii ''B'', ascii ''C'']) = 3
   \<and> ascii ''A'' \<in> set [ascii ''A'', ascii ''B'', ascii ''C'']
   \<and> find (\<lambda>w. code w = ascii ''A'')
        [row ''Z'' ''9'' ''1.00'', row ''A'' ''5'' ''100.00 rub.'', row ''B'' ''1'' ''50.00 rub.'']
      = Some (row ''A'' ''5'' ''100.00 rub.'')
   \<and> parse_quantity (Kolichestvo (row ''A'' ''5'' ''100.00 rub.'')) = Inr 5
   \<and> ascii ''C'' \<in> set [ascii ''A'', ascii ''B'', ascii ''C'']
   \<and> ascii ''C'' \<notin> code ` set
        [row ''Z'' ''9'' ''1.00'', row ''A'' ''5'' ''100.00 rub.'', row ''B'' ''1'' ''50.00 rub.'']"
proof -
  let ?ws = "[row ''Z'' ''9'' ''1.00'', row ''A'' ''5'' ''100.00 rub.'', row ''B'' ''1'' ''50.00 rub.'']"
  let ?ids = "[ascii ''A'', ascii ''B'', ascii ''C'']"
  have r: "create_stocks ?ws ?ids
     = (Inr [\<lparr>stock_offer_id = ascii ''A'', stock = 5\<rparr>, \<lparr>stock_offer_id = ascii ''B'', stock = 0\<rparr>,
             \<lparr>stock_offer_id = ascii ''C'', stock = 0\<rparr>], [ascii ''C''])"
    by (simp add: create_stocks_def row_def py_eval)
  have d: "distinct ?ids" by (simp add: ascii_def)
  have c: "card (set ?ids) = 3" by (simp add: ascii_def)
  have a: "ascii ''A'' \<in> set ?ids" "ascii ''C'' \<in> set ?ids" by simp_all
  have f: "find (\<lambda>w. code w = ascii ''A'') ?ws = Some (row ''A'' ''5'' ''100.00 rub.'')"
    by (simp add: row_def ascii_def)
  have q: "parse_quantity (Kolichestvo (row ''A'' ''5'' ''100.00 rub.'')) = Inr 5"
    by (simp add: row_def py_eval)
  have n: "ascii ''C'' \<notin> code ` set ?ws" by (simp add: row_def ascii_def)
  note t = create_stocks_covers_offer_ids[OF r d]
  have c': "card (set ?ids) = 3" using t[THEN conjunct1] by simp
  show ?thesis by (intro conjI r d c' a f q n)
qed

text \<open>
  Claim C2 states that \<^verbatim>\<open>create_stocks\<close> works on a copy of the offer ids, so that the price
  list is the same whether or not the stocks were computed first. The source makes no
  copy: \<^verbatim>\<open>offer_ids.remove(...)\<close> empties the caller's list of every matched id. For the feed
  of one row with code A and the offer ids [A]: \<^verbatim>\<open>create_stocks\<close> leaves the list empty;
  \<^verbatim>\<open>create_prices\<close> on the untouched list gives one price entry; in the order of \<^verbatim>\<open>main\<close>,
  stocks first and then prices on the same list, the price list is empty.
\<close>

theorem create_stocks_consumes_offer_ids:
  "create_stocks [row ''A'' ''5'' ''100.00''] [ascii ''A'']
     = (Inr [\<lparr>stock_offer_id = ascii ''A'', stock = 5\<rparr>], [])
   \<and> create_prices [row ''A'' ''5'' ''100.00''] [ascii ''A'']
     = Inr [price_entry (row ''A'' ''5'' ''100.00'') (ascii ''100'')]
   \<and> stocks_then_prices [row ''A'' ''5'' ''100.00''] [ascii ''A'']
     = Inr ([\<lparr>stock_offer_id = ascii ''A'', stock = 5\<rparr>], [])"
  by (simp add: stocks_then_prices_def create_stocks_def create_prices_def row_def py_eval)

lemma prices_scan_char:
  "prices_scan ws acc ids = Inr ps \<longleftrightarrow>
     (\<exists>xs. list_all2 (\<lambda>w x. price_conversion (Tsena w) = Inr x)
             (filter (\<lambda>w. code w \<in> set ids) ws) xs
           \<and> ps = acc @ map2 price_entry (filter (\<lambda>w. code w \<in> set ids) ws) xs)"
proof (induction ws arbitrary: acc)
  case Nil
  then show ?case by auto
next
  case (Cons w ws)
  show ?case
  proof (cases "code w \<in> set ids")
    case False
    then show ?thesis using Cons.IH[of acc] by simp
  next
    case True
    show ?thesis
    proof (cases "price_conversion (Tsena w)")
      case (Inl e)
      then show ?thesis using True by (auto simp: list_all2_Cons1)
    next
      case (Inr p)
      show ?thesis
        using True Inr Cons.IH[of "acc @ [price_entry w p]"]
        by (auto simp: list_all2_Cons1 price_entry_def)
    qed
  qed
qed



lemma count_list_map_filter: "count_list (map f xs) c = length (filter (\<lambda>x. f x = c) xs)"
  by (induction xs) auto

lemma find_filter_hd: "filter P xs = y # ys \<Longrightarrow> find P xs = Some y"
  by (induction xs) (auto split: if_splits)

lemma create_prices_char:
  assumes "create_prices ws ids = Inr ps"
  shows "list_all2 (\<lambda>w p. p = price_entry w (price p) \<and> price_conversion (Tsena w) = Inr (price p))
           (filter (\<lambda>w. code w \<in> set ids) ws) ps"
proof -
  obtain xs where xs: "list_all2 (\<lambda>w x. price_conversion (Tsena w) = Inr x)
             (filter (\<lambda>w. code w \<in> set ids) ws) xs"
    and ps: "ps = map2 price_entry (filter (\<lambda>w. code w \<in> set ids) ws) xs"
    using assms prices_scan_char[of ws "[]" ids ps] by (auto simp: create_prices_def)
  have len: "length xs = length (filter (\<lambda>w. code w \<in> set ids) ws)"
    using xs by (simp add: list_all2_lengthD)
  show ?thesis
    unfolding ps using xs len
    by (auto simp: list_all2_conv_all_nth price_entry_def)
qed

lemma create_prices_offer_ids:
  assumes "create_prices ws ids = Inr ps"
  shows "map price_offer_id ps = map code (filter (\<lambda>w. code w \<in> set ids) ws)"
proof -
  have "list_all2 (\<lambda>w p. price_offer_id p = code w) (filter (\<lambda>w. code w \<in> set ids) ws) ps"
    using create_prices_char[OF assms]
    by (rule list_all2_mono) (metis price_entry_def price_update.select_convs(3))
  then show ?thesis
    by (auto simp: list_all2_conv_all_nth intro!: nth_equalityI)
qed

text \<open>
  Claim C3. When rows share a code \<open>c\<close> of the offer-id set, \<open>w1\<close> and \<open>w2\<close> being the first
  two of them in scan order, \<^verbatim>\<open>create_prices\<close> emits one price entry for \<open>c\<close> per such row
  (two for two rows), and \<^verbatim>\<open>create_stocks\<close> emits exactly one stock entry for \<open>c\<close>, whose
  stock is the quantity of \<open>w1\<close>: the first match wins.
\<close>

theorem duplicate_codes:
  assumes "c \<in> set ids" and "distinct ids"
    and "filter (\<lambda>w. code w = c) ws = w1 # w2 # others"
    and "create_prices ws ids = Inr ps"
    and "create_stocks ws ids = (Inr ss, ids')"
  shows "length (filter (\<lambda>p. price_offer_id p = c) ps) = 2 + length others
         \<and> (\<exists>q. parse_quantity (Kolichestvo w1) = Inr q
               \<and> filter (\<lambda>s. stock_offer_id s = c) ss = [\<lparr>stock_offer_id = c, stock = q\<rparr>])"
proof -
  have "map price_offer_id ps = map code (filter (\<lambda>w. code w \<in> set ids) ws)"
    using create_prices_offer_ids[OF assms(4)] .
  then have "length (filter (\<lambda>p. price_offer_id p = c) ps)
               = length (filter (\<lambda>w. code w = c) (filter (\<lambda>w. code w \<in> set ids) ws))"
    by (metis count_list_map_filter)
  also have "\<dots> = length (filter (\<lambda>w. code w = c) ws)"
    using assms(1) by (auto intro!: arg_cong[where f=length] filter_cong)
  finally have p: "length (filter (\<lambda>p. price_offer_id p = c) ps) = 2 + length others"
    using assms(3) by simp
  obtain st where st: "stocks_scan ws [] ids = (Inr st, ids')"
    and ss: "ss = st @ map (\<lambda>i. \<lparr>stock_offer_id = i, stock = 0\<rparr>) ids'"
    using assms(5) by (auto simp: create_stocks_def split: prod.splits sum.splits)
  have f: "find (\<lambda>w. code w = c) ws = Some w1" using find_filter_hd[OF assms(3)] .
  obtain q where q: "parse_quantity (Kolichestvo w1) = Inr q"
    and fs: "filter (\<lambda>s. stock_offer_id s = c) st = [\<lparr>stock_offer_id = c, stock = q\<rparr>]"
    and nin: "c \<notin> set ids'"
    using stocks_scan_first_match[OF st assms(1,2) f] by auto
  have "filter (\<lambda>s. stock_offer_id s = c) (map (\<lambda>i. \<lparr>stock_offer_id = i, stock = 0\<rparr>) ids') = []"
    using nin by (induction ids') auto
  then have "filter (\<lambda>s. stock_offer_id s = c) ss = [\<lparr>stock_offer_id = c, stock = q\<rparr>]"
    using fs ss by simp
  then show ?thesis using p q by blast
qed

theorem duplicate_codes_witness:
  "ascii ''A'' \<in> set [ascii ''A'', ascii ''B''] \<and> distinct [ascii ''A'', ascii ''B'']
   \<and> filter (\<lambda>w. code w = ascii ''A'')
        [row ''A'' ''5'' ''10.00'', row ''B'' ''7'' ''30.00'', row ''A'' ''abc'' ''20.00'']
      = [row ''A'' ''5'' ''10.00'', row ''A'' ''abc'' ''20.00'']
   \<and> create_prices [row ''A'' ''5'' ''10.00'', row ''B'' ''7'' ''30.00'', row ''A'' ''abc'' ''20.00'']
        [ascii ''A'', ascii ''B'']
      = Inr [price_entry (row ''A'' ''5'' ''10.00'') (ascii ''10''),
             price_entry (row ''B'' ''7'' ''30.00'') (ascii ''30''),
             price_entry (row ''A'' ''abc'' ''20.00'') (ascii ''20'')]
   \<and> create_stocks [row ''A'' ''5'' ''10.00'', row ''B'' ''7'' ''30.00'', row ''A'' ''abc'' ''20.00'']
        [ascii ''A'', ascii ''B'']
      = (Inr [\<lparr>stock_offer_id = ascii ''A'', stock = 5\<rparr>, \<lparr>stock_offer_id = ascii ''B'', stock = 7\<rparr>], [])
   \<and> parse_quantity (Kolichestvo (row ''A'' ''5'' ''10.00'')) = Inr 5"
proof -
  have a: "ascii ''A'' \<in> set [ascii ''A'', ascii ''B'']" by simp
  have d: "distinct [ascii ''A'', ascii ''B'']" by (simp add: ascii_def)
  have f: "filter (\<lambda>w. code w = ascii ''A'')
        [row ''A'' ''5'' ''10.00'', row ''B'' ''7'' ''30.00'', row ''A'' ''abc'' ''20.00'']
      = row ''A'' ''5'' ''10.00'' # row ''A'' ''abc'' ''20.00'' # []"
    by (simp add: row_def ascii_def)
  have p: "create_prices [row ''A'' ''5'' ''10.00'', row ''B'' ''7'' ''30.00'', row ''A'' ''abc'' ''20.00'']
        [ascii ''A'', ascii ''B'']
      = Inr [price_entry (row ''A'' ''5'' ''10.00'') (ascii ''10''),
             price_entry (row ''B'' ''7'' ''30.00'') (ascii ''30''),
             price_entry (row ''A'' ''abc'' ''20.00'') (ascii ''20'')]"
    by (simp add: create_prices_def row_def py_eval)
  have s: "create_stocks [row ''A'' ''5'' ''10.00'', row ''B'' ''7'' ''30.00'', row ''A'' ''abc'' ''20.00'']
        [ascii ''A'', ascii ''B'']
      = (Inr [\<lparr>stock_offer_id = ascii ''A'', stock = 5\<rparr>, \<lparr>stock_offer_id = ascii ''B'', stock = 7\<rparr>], [])"
    by (simp add: create_stocks_def row_def py_eval)
  have q: "parse_quantity (Kolichestvo (row ''A'' ''5'' ''10.00'')) = Inr 5"
    by (simp add: row_def py_eval)
  show ?thesis using duplicate_codes[OF a d f p s] a d f p s q by blast
qed

text \<open>
  Claim C4. The list \<^verbatim>\<open>create_prices\<close> returns holds, in feed order, exactly one entry per row
  whose code is in the offer-id set: the offer id is the code, the price is
  \<^verbatim>\<open>price_conversion\<close> of the row's price, the currency code is RUB, the old price is 0 and
  \<^verbatim>\<open>auto_action_enabled\<close> is UNKNOWN. So an offer id occurs as often as rows carry it, and
  an offer id that no row carries has no entry: there is no zero fill.
\<close>

theorem create_prices_entries:
  assumes "create_prices ws ids = Inr ps"
  shows "list_all2
           (\<lambda>w p. p = \<lparr>auto_action_enabled = ascii ''UNKNOWN'', currency_code = ascii ''RUB'',
                         price_offer_id = py_str (Kod w), old_price = ascii ''0'',
                         price = price p\<rparr>
                  \<and> price_conversion (Tsena w) = Inr (price p))
           (filter (\<lambda>w. py_str (Kod w) \<in> set ids) ws) ps
         \<and> (\<forall>c. count_list (map price_offer_id ps) c
                  = (if c \<in> set ids then length (filter (\<lambda>w. code w = c) ws) else 0))
         \<and> (\<forall>c \<in> set ids. c \<notin> code ` set ws \<longrightarrow> c \<notin> price_offer_id ` set ps)"
proof -
  have a: "list_all2
           (\<lambda>w p. p = \<lparr>auto_action_enabled = ascii ''UNKNOWN'', currency_code = ascii ''RUB'',
                         price_offer_id = py_str (Kod w), old_price = ascii ''0'',
                         price = price p\<rparr>
                  \<and> price_conversion (Tsena w) = Inr (price p))
           (filter (\<lambda>w. py_str (Kod w) \<in> set ids) ws) ps"
    using create_prices_char[OF assms] by (simp add: price_entry_def)
  have m: "map price_offer_id ps = map code (filter (\<lambda>w. code w \<in> set ids) ws)"
    using create_prices_offer_ids[OF assms] .
  have b: "\<forall>c. count_list (map price_offer_id ps) c
                  = (if c \<in> set ids then length (filter (\<lambda>w. code w = c) ws) else 0)"
  proof
    fix c
    have "count_list (map price_offer_id ps) c
            = length (filter (\<lambda>w. code w = c \<and> code w \<in> set ids) ws)"
      by (simp add: m count_list_map_filter conj_commute)
    also have "\<dots> = (if c \<in> set ids then length (filter (\<lambda>w. code w = c) ws) else 0)"
      by (auto intro!: arg_cong[where f=length] filter_cong)
    finally show "count_list (map price_offer_id ps) c
                  = (if c \<in> set ids then length (filter (\<lambda>w. code w = c) ws) else 0)" .
  qed
  have "price_offer_id ` set ps \<subseteq> code ` set ws"
    using m by (metis (no_types, lifting) filter_is_subset image_mono list.set_map)
  then have c: "\<forall>c \<in> set ids. c \<notin> code ` set ws \<longrightarrow> c \<notin> price_offer_id ` set ps" by blast
  show ?thesis using a b c by blast
qed

theorem create_prices_entries_witness:
  "create_prices [row ''A'' ''>10'' ''100.00 rub.'', row ''B'' ''1'' ''50.00 rub.'']
       [ascii ''A'', ascii ''B'', ascii ''C'']
     = Inr [\<lparr>auto_action_enabled = ascii ''UNKNOWN'', currency_code = ascii ''RUB'',
             price_offer_id = ascii ''A'', old_price = ascii ''0'', price = ascii ''100''\<rparr>,
            \<lparr>auto_action_enabled = ascii ''UNKNOWN'', currency_code = ascii ''RUB'',
             price_offer_id = ascii ''B'', old_price = ascii ''0'', price = ascii ''50''\<rparr>]
   \<and> ascii ''C'' \<in> set [ascii ''A'', ascii ''B'', ascii ''C'']
   \<and> ascii ''C'' \<notin> code ` set [row ''A'' ''>10'' ''100.00 rub.'', row ''B'' ''1'' ''50.00 rub.'']"
proof -
  have r: "create_prices [row ''A'' ''>10'' ''100.00 rub.'', row ''B'' ''1'' ''50.00 rub.'']
       [ascii ''A'', ascii ''B'', ascii ''C'']
     = Inr [\<lparr>auto_action_enabled = ascii ''UNKNOWN'', currency_code = ascii ''RUB'',
             price_offer_id = ascii ''A'', old_price = ascii ''0'', price = ascii ''100''\<rparr>,
            \<lparr>auto_action_enabled = ascii ''UNKNOWN'', currency_code = ascii ''RUB'',
             price_offer_id = ascii ''B'', old_price = ascii ''0'', price = ascii ''50''\<rparr>]"
    by (simp add: create_prices_def row_def price_entry_def py_eval)
  have i: "ascii ''C'' \<in> set [ascii ''A'', ascii ''B'', ascii ''C'']" by simp
  have n: "ascii ''C'' \<notin> code ` set [row ''A'' ''>10'' ''100.00 rub.'', row ''B'' ''1'' ''50.00 rub.'']"
    by (simp add: row_def ascii_def)
  show ?thesis using create_prices_entries[OF r] r i n by blast
qed











section \<open>Properties of the enumeration of offer ids\<close>

lemma offer_loop_paged:
  "reaches_total_at_last (length acc) ps \<Longrightarrow>
     offer_loop paged_listing cursor acc (ps @ extra, seen)
       = Some (Inr (acc @ concat (map items ps)),
               (extra, seen @ cursor # map last_id (butlast ps)))"
proof (induction ps arbitrary: acc cursor seen)
  case Nil
  then show ?case by simp
next
  case (Cons p ps)
  show ?case
  proof (cases ps)
    case Nil
    then show ?thesis using Cons.prems by (subst offer_loop.simps) simp
  next
    case (Cons q qs)
    have ne: "total p \<noteq> int (length (acc @ items p))"
      and r: "reaches_total_at_last (length (acc @ items p)) ps"
      using Cons.prems Cons by simp_all
    have "offer_loop paged_listing cursor acc ((p # ps) @ extra, seen)
            = offer_loop paged_listing (last_id p) (acc @ items p) (ps @ extra, seen @ [cursor])"
      using ne by (subst offer_loop.simps) simp
    also have "\<dots> = Some (Inr ((acc @ items p) @ concat (map items ps)),
               (extra, (seen @ [cursor]) @ last_id p # map last_id (butlast ps)))"
      using Cons.IH[OF r] .
    finally show ?thesis using Cons by simp
  qed
qed

lemma offer_loop_returns_only_outside:
  assumes step: "\<And>cursor acc s. I cursor acc s \<Longrightarrow>
            \<exists>p s'. glp s cursor = (Inr p, s') \<and> total p \<noteq> int (length (acc @ items p))
                   \<and> I (last_id p) (acc @ items p) s'"
    and ret: "offer_loop g cursor acc s = Some r"
  shows "g = glp \<longrightarrow> \<not> I cursor acc s"
proof (rule offer_loop.raw_induct[where P = "\<lambda>g c a s r. g = glp \<longrightarrow> \<not> I c a s", OF _ ret],
    intro impI notI)
  fix f g c a s r
  assume IH: "\<And>g c a s r. f g c a s = Some r \<Longrightarrow> g = glp \<longrightarrow> \<not> I c a s"
    and body: "(case g s c of (Inl e, s') \<Rightarrow> Some (Inl e, s')
      | (Inr some_prod, s') \<Rightarrow>
          if total some_prod = int (length (a @ items some_prod))
          then Some (Inr (a @ items some_prod), s')
          else f g (last_id some_prod) (a @ items some_prod) s') = Some r"
    and g: "g = glp" and i: "I c a s"
  obtain p s' where p: "glp s c = (Inr p, s')" "total p \<noteq> int (length (a @ items p))"
      "I (last_id p) (a @ items p) s'"
    using step[OF i] by blast
  have "f g (last_id p) (a @ items p) s' = Some r"
    using body g p(1,2) by simp
  from IH[OF this] g p(3) show False by simp
qed

lemma offer_loop_never_returns:
  assumes "\<And>cursor acc s. I cursor acc s \<Longrightarrow>
            \<exists>p s'. glp s cursor = (Inr p, s') \<and> total p \<noteq> int (length (acc @ items p))
                   \<and> I (last_id p) (acc @ items p) s'"
    and "I cursor acc s"
  shows "offer_loop glp cursor acc s = None"
proof (cases "offer_loop glp cursor acc s")
  case None
  then show ?thesis .
next
  case (Some r)
  from offer_loop_returns_only_outside[of I glp, OF assms(1) Some] assms(2)
  show ?thesis by simp
qed


lemma get_offer_ids_paged:
  assumes "reaches_total_at_last 0 ps"
  shows "get_offer_ids paged_listing (ps @ extra, [])
           = Some (Inr (map offer_id (concat (map items ps))),
                   (extra, [] # map last_id (butlast ps)))"
  using offer_loop_paged[of "[]" ps "[]" extra "[]"] assms
  by (simp add: get_offer_ids_def)

lemma offer_loop_served:
  "reaches_total_at_last (length acc) ps \<Longrightarrow> serves glp s cursor ps s' \<Longrightarrow>
     offer_loop glp cursor acc s = Some (Inr (acc @ concat (map items ps)), s')"
proof (induction ps arbitrary: acc cursor s)
  case Nil
  then show ?case by simp
next
  case (Cons p ps)
  obtain s1 where g: "glp s cursor = (Inr p, s1)" and sv: "serves glp s1 (last_id p) ps s'"
    using Cons.prems(2) by (auto split: prod.splits sum.splits)
  show ?case
  proof (cases ps)
    case Nil
    then show ?thesis using Cons.prems(1) g sv by (subst offer_loop.simps) simp
  next
    case (Cons q qs)
    have ne: "total p \<noteq> int (length (acc @ items p))"
      and r: "reaches_total_at_last (length (acc @ items p)) ps"
      using Cons.prems(1) Cons by simp_all
    have "offer_loop glp cursor acc s = offer_loop glp (last_id p) (acc @ items p) s1"
      using ne g by (subst offer_loop.simps) simp
    also have "\<dots> = Some (Inr ((acc @ items p) @ concat (map items ps)), s')"
      using Cons.IH[OF r sv] .
    finally show ?thesis by simp
  qed
qed

lemma offer_loop_failed:
  "never_total (length acc) ps \<Longrightarrow> serves glp s cursor ps s1 \<Longrightarrow>
   glp s1 (next_cursor cursor ps) = (Inl e, s') \<Longrightarrow>
     offer_loop glp cursor acc s = Some (Inl e, s')"
proof (induction ps arbitrary: acc cursor s)
  case Nil
  then show ?case by (subst offer_loop.simps) (simp add: next_cursor_def)
next
  case (Cons p ps)
  obtain s2 where g: "glp s cursor = (Inr p, s2)" and sv: "serves glp s2 (last_id p) ps s1"
    using Cons.prems(2) by (auto split: prod.splits sum.splits)
  have ne: "total p \<noteq> int (length (acc @ items p))"
    and r: "never_total (length (acc @ items p)) ps"
    using Cons.prems(1) by simp_all
  have nc: "next_cursor (last_id p) ps = next_cursor cursor (p # ps)"
    by (simp add: next_cursor_def)
  have "offer_loop glp cursor acc s = offer_loop glp (last_id p) (acc @ items p) s2"
    using ne g by (subst offer_loop.simps) simp
  also have "\<dots> = Some (Inl e, s')"
    using Cons.IH[OF r sv] Cons.prems(3) nc by simp
  finally show ?case .
qed

lemma offer_loop_result:
  assumes ret: "offer_loop g cursor acc s = Some r"
  shows "g = glp \<longrightarrow>
           (case r of
              (Inr pl, s') \<Rightarrow>
                (\<exists>ps. serves glp s cursor ps s' \<and> reaches_total_at_last (length acc) ps
                      \<and> pl = acc @ concat (map items ps))
            | (Inl e, s') \<Rightarrow>
                (\<exists>ps s1. serves glp s cursor ps s1 \<and> never_total (length acc) ps
                      \<and> glp s1 (next_cursor cursor ps) = (Inl e, s')))"
proof (rule offer_loop.raw_induct[where P = "\<lambda>g c a s r. g = glp \<longrightarrow>
           (case r of
              (Inr pl, s') \<Rightarrow>
                (\<exists>ps. serves glp s c ps s' \<and> reaches_total_at_last (length a) ps
                      \<and> pl = a @ concat (map items ps))
            | (Inl e, s') \<Rightarrow>
                (\<exists>ps s1. serves glp s c ps s1 \<and> never_total (length a) ps
                      \<and> glp s1 (next_cursor c ps) = (Inl e, s')))", OF _ ret], intro impI)
  fix f g c a s r
  assume IH: "\<And>g c a s r. f g c a s = Some r \<Longrightarrow> g = glp \<longrightarrow>
           (case r of
              (Inr pl, s') \<Rightarrow>
                (\<exists>ps. serves glp s c ps s' \<and> reaches_total_at_last (length a) ps
                      \<and> pl = a @ concat (map items ps))
            | (Inl e, s') \<Rightarrow>
                (\<exists>ps s1. serves glp s c ps s1 \<and> never_total (length a) ps
                      \<and> glp s1 (next_cursor c ps) = (Inl e, s')))"
    and body: "(case g s c of (Inl e, s') \<Rightarrow> Some (Inl e, s')
      | (Inr some_prod, s') \<Rightarrow>
          if total some_prod = int (length (a @ items some_prod))
          then Some (Inr (a @ items some_prod), s')
          else f g (last_id some_prod) (a @ items some_prod) s') = Some r"
    and g: "g = glp"
  obtain x s1 where gs: "glp s c = (x, s1)" by (cases "glp s c")
  show "case r of
              (Inr pl, s') \<Rightarrow>
                (\<exists>ps. serves glp s c ps s' \<and> reaches_total_at_last (length a) ps
                      \<and> pl = a @ concat (map items ps))
            | (Inl e, s') \<Rightarrow>
                (\<exists>ps s1. serves glp s c ps s1 \<and> never_total (length a) ps
                      \<and> glp s1 (next_cursor c ps) = (Inl e, s'))"
  proof (cases x)
    case (Inl e)
    then have r: "r = (Inl e, s1)" using body g gs by simp
    have "serves glp s c [] s \<and> never_total (length a) []
            \<and> glp s (next_cursor c []) = (Inl e, s1)"
      using gs Inl by (simp add: next_cursor_def)
    then show ?thesis unfolding r by (simp only: prod.case sum.case) blast
  next
    case (Inr p)
    show ?thesis
    proof (cases "total p = int (length (a @ items p))")
      case True
      then have r: "r = (Inr (a @ items p), s1)" using body g gs Inr by simp
      have "serves glp s c [p] s1 \<and> reaches_total_at_last (length a) [p]
              \<and> a @ items p = a @ concat (map items [p])"
        using gs Inr True by simp
      then show ?thesis unfolding r by (simp only: prod.case sum.case) blast
    next
      case False
      then have "f g (last_id p) (a @ items p) s1 = Some r" using body g gs Inr by simp
      from IH[OF this] g have ih: "case r of
              (Inr pl, s') \<Rightarrow>
                (\<exists>ps. serves glp s1 (last_id p) ps s'
                      \<and> reaches_total_at_last (length (a @ items p)) ps
                      \<and> pl = (a @ items p) @ concat (map items ps))
            | (Inl e, s') \<Rightarrow>
                (\<exists>ps s2. serves glp s1 (last_id p) ps s2
                      \<and> never_total (length (a @ items p)) ps
                      \<and> glp s2 (next_cursor (last_id p) ps) = (Inl e, s'))"
        by blast
      obtain y s' where r: "r = (y, s')" by (cases r)
      show ?thesis
      proof (cases y)
        case (Inl e)
        then obtain ps s2 where q: "serves glp s1 (last_id p) ps s2"
          "never_total (length (a @ items p)) ps"
          "glp s2 (next_cursor (last_id p) ps) = (Inl e, s')"
          using ih r by auto
        have "serves glp s c (p # ps) s2 \<and> never_total (length a) (p # ps)
                \<and> glp s2 (next_cursor c (p # ps)) = (Inl e, s')"
          using q gs \<open>x = Inr p\<close> False by (auto simp: next_cursor_def)
        then show ?thesis unfolding r Inl by (simp only: prod.case sum.case) blast
      next
        case (Inr pl)
        then obtain ps where q: "serves glp s1 (last_id p) ps s'"
          "reaches_total_at_last (length (a @ items p)) ps"
          "pl = (a @ items p) @ concat (map items ps)"
          using ih r by auto
        obtain q0 qs where ps: "ps = q0 # qs" using q(2) by (cases ps) auto
        have "serves glp s c (p # ps) s' \<and> reaches_total_at_last (length a) (p # ps)
                \<and> pl = a @ concat (map items (p # ps))"
          using q gs \<open>x = Inr p\<close> False by (simp add: ps)
        then show ?thesis unfolding r Inr by (simp only: prod.case sum.case) blast
      qed
    qed
  qed
qed


text \<open>
  Claim C5. \<^verbatim>\<open>get_offer_ids\<close> starts from the empty cursor, calls the listing service again
  and again, each time with the cursor of the page before, and stops exactly when the
  number of items collected equals the total the service reports: served pages \<open>ps\<close> where
  this happens at the last page and not before, it returns the offer ids of all items of
  \<open>ps\<close>, has asked for exactly those pages and leaves the further pages untouched. For three
  pages of 1000, 1000 and 250 items with total 2250 it returns after exactly three calls with
  2250 offer ids, which are 2250 different ones when no offer id repeats. When the service
  keeps answering and the count never equals the total, the loop does not return. For
  every listing service, offer ids are returned only so: the run returns the list \<open>ids\<close>
  exactly when the service has answered a sequence of pages at whose last page, and at none
  before, the count equals the total, \<open>ids\<close> being the offer ids of these pages; and the
  run ends in the error \<open>e\<close> exactly when a call fails with \<open>e\<close> after pages at none of which
  the count equals the total.
\<close>

theorem get_offer_ids_pages:
  "(reaches_total_at_last 0 ps \<longrightarrow>
      get_offer_ids paged_listing (ps @ extra, [])
        = Some (Inr (map offer_id (concat (map items ps))),
                (extra, [] # map last_id (butlast ps))))
   \<and> (length (items p1) = 1000 \<and> length (items p2) = 1000 \<and> length (items p3) = 250
        \<and> total p1 = 2250 \<and> total p2 = 2250 \<and> total p3 = 2250 \<longrightarrow>
        get_offer_ids paged_listing ([p1, p2, p3] @ rest, [])
          = Some (Inr (map offer_id (items p1 @ items p2 @ items p3)),
                  (rest, [[], last_id p1, last_id p2]))
        \<and> length (map offer_id (items p1 @ items p2 @ items p3)) = 2250
        \<and> (distinct (map offer_id (items p1 @ items p2 @ items p3)) \<longrightarrow>
              card (set (map offer_id (items p1 @ items p2 @ items p3))) = 2250))
   \<and> ((\<forall>cursor acc s. I cursor acc s \<longrightarrow>
          (\<exists>p s'. glp s cursor = (Inr p, s') \<and> total p \<noteq> int (length (acc @ items p))
                  \<and> I (last_id p) (acc @ items p) s'))
        \<and> I [] [] s0 \<longrightarrow> get_offer_ids glp s0 = None)
   \<and> (get_offer_ids g t = Some (Inr ids, t') \<longleftrightarrow>
        (\<exists>qs. serves g t [] qs t' \<and> reaches_total_at_last 0 qs
              \<and> ids = map offer_id (concat (map items qs))))
   \<and> (get_offer_ids g t = Some (Inl e, t') \<longleftrightarrow>
        (\<exists>qs t1. serves g t [] qs t1 \<and> never_total 0 qs
              \<and> g t1 (next_cursor [] qs) = (Inl e, t')))"
proof -
  have a: "reaches_total_at_last 0 ps \<longrightarrow>
      get_offer_ids paged_listing (ps @ extra, [])
        = Some (Inr (map offer_id (concat (map items ps))),
                (extra, [] # map last_id (butlast ps)))"
    using get_offer_ids_paged by blast
  have b: "length (items p1) = 1000 \<and> length (items p2) = 1000 \<and> length (items p3) = 250
        \<and> total p1 = 2250 \<and> total p2 = 2250 \<and> total p3 = 2250 \<longrightarrow>
        get_offer_ids paged_listing ([p1, p2, p3] @ rest, [])
          = Some (Inr (map offer_id (items p1 @ items p2 @ items p3)),
                  (rest, [[], last_id p1, last_id p2]))
        \<and> length (map offer_id (items p1 @ items p2 @ items p3)) = 2250
        \<and> (distinct (map offer_id (items p1 @ items p2 @ items p3)) \<longrightarrow>
              card (set (map offer_id (items p1 @ items p2 @ items p3))) = 2250)"
  proof (intro impI, elim conjE)
    assume h: "length (items p1) = 1000" "length (items p2) = 1000" "length (items p3) = 250"
      "total p1 = 2250" "total p2 = 2250" "total p3 = 2250"
    have r: "reaches_total_at_last 0 [p1, p2, p3]" using h by simp
    have l: "length (map offer_id (items p1 @ items p2 @ items p3)) = 2250" using h by simp
    have d: "distinct (map offer_id (items p1 @ items p2 @ items p3)) \<longrightarrow>
              card (set (map offer_id (items p1 @ items p2 @ items p3))) = 2250"
      using l distinct_card by metis
    show "get_offer_ids paged_listing ([p1, p2, p3] @ rest, [])
          = Some (Inr (map offer_id (items p1 @ items p2 @ items p3)),
                  (rest, [[], last_id p1, last_id p2]))
        \<and> length (map offer_id (items p1 @ items p2 @ items p3)) = 2250
        \<and> (distinct (map offer_id (items p1 @ items p2 @ items p3)) \<longrightarrow>
              card (set (map offer_id (items p1 @ items p2 @ items p3))) = 2250)"
      using get_offer_ids_paged[OF r, of rest] l d by simp
  qed
  have c: "(\<forall>cursor acc s. I cursor acc s \<longrightarrow>
          (\<exists>p s'. glp s cursor = (Inr p, s') \<and> total p \<noteq> int (length (acc @ items p))
                  \<and> I (last_id p) (acc @ items p) s'))
        \<and> I [] [] s0 \<longrightarrow> get_offer_ids glp s0 = None"
  proof (intro impI, elim conjE)
    assume st: "\<forall>cursor acc s. I cursor acc s \<longrightarrow>
          (\<exists>p s'. glp s cursor = (Inr p, s') \<and> total p \<noteq> int (length (acc @ items p))
                  \<and> I (last_id p) (acc @ items p) s')"
      and i: "I [] [] s0"
    have "offer_loop glp [] [] s0 = None"
      using offer_loop_never_returns[of I glp "[]" "[]" s0] st i by blast
    then show "get_offer_ids glp s0 = None" by (simp add: get_offer_ids_def)
  qed
  have d: "get_offer_ids g t = Some (Inr ids, t') \<longleftrightarrow>
        (\<exists>qs. serves g t [] qs t' \<and> reaches_total_at_last 0 qs
              \<and> ids = map offer_id (concat (map items qs)))"
  proof
    assume "get_offer_ids g t = Some (Inr ids, t')"
    then obtain pl where pl: "offer_loop g [] [] t = Some (Inr pl, t')" "ids = map offer_id pl"
      by (auto simp: get_offer_ids_def split: option.splits prod.splits sum.splits)
    from offer_loop_result[OF pl(1), of g] pl(2)
    show "\<exists>qs. serves g t [] qs t' \<and> reaches_total_at_last 0 qs
              \<and> ids = map offer_id (concat (map items qs))"
      by auto
  next
    assume "\<exists>qs. serves g t [] qs t' \<and> reaches_total_at_last 0 qs
              \<and> ids = map offer_id (concat (map items qs))"
    then obtain qs where q: "serves g t [] qs t'" "reaches_total_at_last 0 qs"
      "ids = map offer_id (concat (map items qs))"
      by blast
    have "offer_loop g [] [] t = Some (Inr ([] @ concat (map items qs)), t')"
      using offer_loop_served[of "[]" qs g t "[]" t'] q(1,2) by simp
    then show "get_offer_ids g t = Some (Inr ids, t')"
      using q(3) by (simp add: get_offer_ids_def)
  qed
  have e: "get_offer_ids g t = Some (Inl e, t') \<longleftrightarrow>
        (\<exists>qs t1. serves g t [] qs t1 \<and> never_total 0 qs
              \<and> g t1 (next_cursor [] qs) = (Inl e, t'))"
  proof
    assume "get_offer_ids g t = Some (Inl e, t')"
    then have "offer_loop g [] [] t = Some (Inl e, t')"
      by (auto simp: get_offer_ids_def split: option.splits prod.splits sum.splits)
    from offer_loop_result[OF this, of g]
    show "\<exists>qs t1. serves g t [] qs t1 \<and> never_total 0 qs
              \<and> g t1 (next_cursor [] qs) = (Inl e, t')"
      by auto
  next
    assume "\<exists>qs t1. serves g t [] qs t1 \<and> never_total 0 qs
              \<and> g t1 (next_cursor [] qs) = (Inl e, t')"
    then obtain qs t1 where q: "serves g t [] qs t1" "never_total 0 qs"
      "g t1 (next_cursor [] qs) = (Inl e, t')"
      by blast
    have "offer_loop g [] [] t = Some (Inl e, t')"
      using offer_loop_failed[of "[]" qs g t "[]" t1 e t'] q by simp
    then show "get_offer_ids g t = Some (Inl e, t')"
      by (simp add: get_offer_ids_def)
  qed
  show ?thesis using a b c d e by blast
qed

theorem get_offer_ids_pages_witness:
  "reaches_total_at_last 0 [numbered_page 0 2 5, numbered_page 2 3 5]
   \<and> get_offer_ids paged_listing
        ([numbered_page 0 2 5, numbered_page 2 3 5] @ [numbered_page 5 1 6], [])
      = Some (Inr [[0], [1], [2], [3], [4]], ([numbered_page 5 1 6], [[], [2]]))
   \<and> length (items (numbered_page 0 1000 2250)) = 1000
   \<and> length (items (numbered_page 1000 1000 2250)) = 1000
   \<and> length (items (numbered_page 2000 250 2250)) = 250
   \<and> get_offer_ids paged_listing
        ([numbered_page 0 1000 2250, numbered_page 1000 1000 2250, numbered_page 2000 250 2250]
           @ [], [])
      = Some (Inr (map offer_id (items (numbered_page 0 1000 2250)
                     @ items (numbered_page 1000 1000 2250)
                     @ items (numbered_page 2000 250 2250))),
              ([], [[], [1000], [2000]]))
   \<and> distinct (map offer_id (items (numbered_page 0 1000 2250)
                     @ items (numbered_page 1000 1000 2250)
                     @ items (numbered_page 2000 250 2250)))
   \<and> card (set (map offer_id (items (numbered_page 0 1000 2250)
                     @ items (numbered_page 1000 1000 2250)
                     @ items (numbered_page 2000 250 2250)))) = 2250
   \<and> get_offer_ids stuck_listing () = None
   \<and> serves paged_listing ([numbered_page 0 1 5], []) [] [numbered_page 0 1 5] ([], [[]])
   \<and> never_total 0 [numbered_page 0 1 5]
   \<and> paged_listing ([], [[]]) (next_cursor [] [numbered_page 0 1 5])
       = (Inl TransportError, ([], [[], [1]]))
   \<and> get_offer_ids paged_listing ([numbered_page 0 1 5], [])
       = Some (Inl TransportError, ([], [[], [1]]))"
proof -
  let ?P1 = "numbered_page 0 1000 2250" and ?P2 = "numbered_page 1000 1000 2250"
    and ?P3 = "numbered_page 2000 250 2250"
  let ?ps = "[numbered_page 0 2 5, numbered_page 2 3 5]"
  note t0 = get_offer_ids_pages[of ?ps "[numbered_page 5 1 6]" ?P1 ?P2 ?P3 "[]"
      "\<lambda>_ _ _. True" stuck_listing "()" paged_listing "([numbered_page 0 1 5], [])"
      _ "([], [[], [1]])" TransportError]
  note t = conjI[OF t0[THEN conjunct1]
      conjI[OF t0[THEN conjunct2, THEN conjunct1] t0[THEN conjunct2, THEN conjunct2, THEN conjunct1]]]
  note t5 = t0[THEN conjunct2, THEN conjunct2, THEN conjunct2, THEN conjunct2]
  have r: "reaches_total_at_last 0 ?ps" by (simp add: numbered_page_def)
  have e: "map offer_id (concat (map items ?ps)) = [[0], [1], [2], [3], [4]]"
    "map last_id (butlast ?ps) = [[2]]"
    by (simp_all add: numbered_page_def upt_rec)
  have l: "length (items ?P1) = 1000" "length (items ?P2) = 1000" "length (items ?P3) = 250"
    "total ?P1 = 2250" "total ?P2 = 2250" "total ?P3 = 2250"
    "last_id ?P1 = [1000]" "last_id ?P2 = [2000]"
    by (simp_all add: numbered_page_def del: upt_rec_numeral)
  have d: "distinct (map offer_id (items ?P1 @ items ?P2 @ items ?P3))"
    by (auto simp: numbered_page_def distinct_map inj_on_def comp_def simp del: upt_rec_numeral)
  have st: "\<forall>cursor acc s. True \<longrightarrow>
          (\<exists>p s'. stuck_listing s cursor = (Inr p, s') \<and> total p \<noteq> int (length (acc @ items p))
                  \<and> True)"
    by (simp add: stuck_listing_def)
  have a: "get_offer_ids paged_listing (?ps @ [numbered_page 5 1 6], [])
      = Some (Inr [[0], [1], [2], [3], [4]], ([numbered_page 5 1 6], [[], [2]]))"
    using t r e by metis
  have b: "get_offer_ids paged_listing ([?P1, ?P2, ?P3] @ [], [])
      = Some (Inr (map offer_id (items ?P1 @ items ?P2 @ items ?P3)), ([], [[], [1000], [2000]]))"
    "card (set (map offer_id (items ?P1 @ items ?P2 @ items ?P3))) = 2250"
    using t l d by metis+
  have c: "get_offer_ids stuck_listing () = None" using t st by blast
  have f: "serves paged_listing ([numbered_page 0 1 5], []) [] [numbered_page 0 1 5] ([], [[]])"
    "never_total 0 [numbered_page 0 1 5]"
    "paged_listing ([], [[]]) (next_cursor [] [numbered_page 0 1 5])
       = (Inl TransportError, ([], [[], [1]]))"
    by (simp_all add: numbered_page_def next_cursor_def)
  have g: "get_offer_ids paged_listing ([numbered_page 0 1 5], [])
       = Some (Inl TransportError, ([], [[], [1]]))"
    by (rule t5[THEN iffD2]) (use f in blast)
  show ?thesis by (intro conjI r a l(1-3) b d c f g)
qed

end
